theory Spec2Isabelle
  imports Main "HOL-Library.Sublist"
begin

section \<open>Qt strings and regular expressions\<close>

text \<open>
  The log dialog of CopyQ (\<^verbatim>\<open>src/gui/logdialog.cpp\<close>) works on \<^verbatim>\<open>QString\<close> values and on
  three \<^verbatim>\<open>QRegExp\<close> patterns. A \<^verbatim>\<open>QString\<close> is modelled as a \<^typ>\<open>string\<close>; the line feed
  is the character that separates the lines of the log and the blocks of a text document.
\<close>

abbreviation LF :: char where
  "LF \<equiv> CHR 0x0A"

abbreviation DQ :: char where
  "DQ \<equiv> CHR 0x22"

abbreviation SQ :: char where
  "SQ \<equiv> CHR 0x27"

text \<open>
  The abstract syntax of the patterns the dialog builds: the caret, the dot, a literal
  character, a negated one-character class, concatenation, alternation and the greedy star.
  \<open>Fail\<close> and \<open>Eps\<close> only arise while matching.
\<close>

datatype rx = Fail | Eps | Caret | AnyChar | Lit char | NotLit char
  | Seq rx rx | Alt rx rx | Star rx

text \<open>
  Matching at one start offset, by derivatives. The flag says whether the current offset is
  the caret offset (the caret of a \<^verbatim>\<open>QRegExp\<close> matches at offset 0 of the searched string
  only). \<open>lmatch st r s\<close> is the length of the longest match of \<open>r\<close> that starts at the
  beginning of \<open>s\<close>, which is what \<^verbatim>\<open>QRegExp::matchedLength\<close> reports for a greedy pattern.
\<close>

fun nullable :: "bool \<Rightarrow> rx \<Rightarrow> bool" where
  "nullable st Fail = False"
| "nullable st Eps = True"
| "nullable st Caret = st"
| "nullable st AnyChar = False"
| "nullable st (Lit c) = False"
| "nullable st (NotLit c) = False"
| "nullable st (Seq a b) = (nullable st a \<and> nullable st b)"
| "nullable st (Alt a b) = (nullable st a \<or> nullable st b)"
| "nullable st (Star a) = True"

fun deriv :: "bool \<Rightarrow> char \<Rightarrow> rx \<Rightarrow> rx" where
  "deriv st c Fail = Fail"
| "deriv st c Eps = Fail"
| "deriv st c Caret = Fail"
| "deriv st c AnyChar = Eps"
| "deriv st c (Lit d) = (if c = d then Eps else Fail)"
| "deriv st c (NotLit d) = (if c = d then Fail else Eps)"
| "deriv st c (Seq a b) =
     (if nullable st a then Alt (Seq (deriv st c a) b) (deriv st c b)
      else Seq (deriv st c a) b)"
| "deriv st c (Alt a b) = Alt (deriv st c a) (deriv st c b)"
| "deriv st c (Star a) = Seq (deriv st c a) (Star a)"

fun lmatch :: "bool \<Rightarrow> rx \<Rightarrow> string \<Rightarrow> nat option" where
  "lmatch st r [] = (if nullable st r then Some 0 else None)"
| "lmatch st r (c # cs) =
     (case lmatch False (deriv st c r) cs of
        Some n \<Rightarrow> Some (Suc n)
      | None \<Rightarrow> (if nullable st r then Some 0 else None))"

text \<open>The pattern that matches exactly the characters of a string, in order.\<close>

fun lits :: "string \<Rightarrow> rx" where
  "lits [] = Eps"
| "lits (c # cs) = Seq (Lit c) (lits cs)"

text \<open>
  \<^verbatim>\<open>QString::replace(before, after)\<close>: every occurrence of \<open>before\<close>, found from left to
  right and not overlapping the previous one, is replaced (\<open>bef\<close> by \<open>aft\<close>). The counter
  is the number of characters of the current occurrence still to be skipped.
\<close>

fun replaceFrom :: "string \<Rightarrow> string \<Rightarrow> nat \<Rightarrow> string \<Rightarrow> string" where
  "replaceFrom bef aft k [] = []"
| "replaceFrom bef aft (Suc k) (c # cs) = replaceFrom bef aft k cs"
| "replaceFrom bef aft 0 (c # cs) =
     (if prefix bef (c # cs) then aft @ replaceFrom bef aft (length bef - 1) cs
      else c # replaceFrom bef aft 0 cs)"

definition replace :: "string \<Rightarrow> string \<Rightarrow> string \<Rightarrow> string" where
  "replace bef aft s =
     (if bef = [] then aft @ concat (map (\<lambda>c. c # aft) s)
      else replaceFrom bef aft 0 s)"

text \<open>
  \<^verbatim>\<open>QString::remove(QRegExp)\<close>: the matches are found from left to right, each search
  starting where the previous match ended; a match is the longest one at the leftmost
  offset; an empty match removes nothing and the search moves on by one character. The
  caret offset is offset 0.
\<close>

fun removeFrom :: "rx \<Rightarrow> bool \<Rightarrow> nat \<Rightarrow> string \<Rightarrow> string" where
  "removeFrom r st k [] = []"
| "removeFrom r st (Suc k) (c # cs) = removeFrom r False k cs"
| "removeFrom r st 0 (c # cs) =
     (case lmatch st r (c # cs) of
        Some (Suc ml) \<Rightarrow> removeFrom r False ml cs
      | _ \<Rightarrow> c # removeFrom r False 0 cs)"

definition remove :: "rx \<Rightarrow> string \<Rightarrow> string" where
  "remove r s = removeFrom r True 0 s"

section \<open>Text documents and cursors\<close>

text \<open>
  A \<^verbatim>\<open>QTextCharFormat\<close> is a set of optional properties; the dialog sets the font, the
  background and the foreground.
\<close>

datatype color = White | Black | Red | DarkRed | DarkGreen | Rgb nat nat nat

record qfont =
  family :: string
  bold :: bool

record charFormat =
  font :: "qfont option"
  background :: "color option"
  foreground :: "color option"

definition emptyFormat :: charFormat where
  "emptyFormat = \<lparr>font = None, background = None, foreground = None\<rparr>"

text \<open>
  A \<^verbatim>\<open>QTextDocument\<close> filled by \<^verbatim>\<open>setPlainText\<close>: its plain text (a line feed ends a
  block) and the character format of every position of the text.
\<close>

record document =
  plainText :: string
  charFormats :: "charFormat list"

definition setPlainText :: "string \<Rightarrow> document" where
  "setPlainText content =
     \<lparr>plainText = content, charFormats = replicate (length content) emptyFormat\<rparr>"

text \<open>A \<^verbatim>\<open>QTextCursor\<close> is null or has an anchor and a position.\<close>

datatype cursor = NullCursor | Cursor nat nat

fun isNull :: "cursor \<Rightarrow> bool" where
  "isNull NullCursor = True"
| "isNull (Cursor a p) = False"

fun selectionStart :: "cursor \<Rightarrow> nat" where
  "selectionStart NullCursor = 0"
| "selectionStart (Cursor a p) = min a p"

fun selectionEnd :: "cursor \<Rightarrow> nat" where
  "selectionEnd NullCursor = 0"
| "selectionEnd (Cursor a p) = max a p"

definition selectedText :: "document \<Rightarrow> cursor \<Rightarrow> string" where
  "selectedText doc tc =
     take (selectionEnd tc - selectionStart tc) (drop (selectionStart tc) (plainText doc))"

text \<open>The cursor of \<^verbatim>\<open>QTextCursor(document)\<close> after \<^verbatim>\<open>movePosition(QTextCursor::End)\<close>.\<close>

definition endCursor :: "document \<Rightarrow> cursor" where
  "endCursor doc = Cursor (length (plainText doc)) (length (plainText doc))"

text \<open>
  \<^verbatim>\<open>QTextCursor::setCharFormat\<close> gives the format to every character of the selection
  (positions \<open>lo\<close> up to, not including, \<open>hi\<close>) and replaces the format they had.
\<close>

fun setRange :: "nat \<Rightarrow> nat \<Rightarrow> 'a \<Rightarrow> 'a list \<Rightarrow> 'a list" where
  "setRange lo hi f [] = []"
| "setRange lo hi f (x # xs) =
     (if lo = 0 then (if hi = 0 then x # xs else f # setRange 0 (hi - 1) f xs)
      else x # setRange (lo - 1) (hi - 1) f xs)"

definition setCharFormat :: "charFormat \<Rightarrow> document \<Rightarrow> cursor \<Rightarrow> document" where
  "setCharFormat f doc tc =
     doc\<lparr>charFormats := setRange (selectionStart tc) (selectionEnd tc) f (charFormats doc)\<rparr>"

text \<open>
  \<^verbatim>\<open>QTextDocument::find(expr, cursor, FindBackward)\<close> starts one position before the
  start of the cursor's selection and looks for the greatest position at or before it at
  which the pattern matches. Every block is searched on its own text
  (\<^verbatim>\<open>QRegExp::lastIndexIn\<close> on the text of the block, so the caret offset is the start of
  the block and no match leaves the block); the result selects the match, the anchor at
  its start. A null cursor searches from position 0 and finds nothing.
\<close>

definition blockStart :: "string \<Rightarrow> nat \<Rightarrow> bool" where
  "blockStart t g = (g = 0 \<or> (g - 1 < length t \<and> t ! (g - 1) = LF))"

definition blockTail :: "string \<Rightarrow> nat \<Rightarrow> string" where
  "blockTail t g = takeWhile (\<lambda>c. c \<noteq> LF) (drop g t)"

definition matchAt :: "rx \<Rightarrow> string \<Rightarrow> nat \<Rightarrow> nat option" where
  "matchAt r t g = lmatch (blockStart t g) r (blockTail t g)"

fun findBelow :: "rx \<Rightarrow> string \<Rightarrow> nat \<Rightarrow> cursor" where
  "findBelow r t 0 = NullCursor"
| "findBelow r t (Suc g) =
     (case matchAt r t g of
        Some len \<Rightarrow> Cursor g (g + len)
      | None \<Rightarrow> findBelow r t g)"

definition findBackward :: "rx \<Rightarrow> document \<Rightarrow> cursor \<Rightarrow> cursor" where
  "findBackward r doc tc =
     (case tc of
        NullCursor \<Rightarrow> NullCursor
      | Cursor a p \<Rightarrow> findBelow r (plainText doc) (selectionStart tc))"

section \<open>The decorators\<close>

text \<open>
  Class \<^verbatim>\<open>Decorator\<close>: the cursor \<^verbatim>\<open>m_tc\<close> and the single-shot timer
  \<^verbatim>\<open>m_timerDecorate\<close> (interval 0, connected to \<^verbatim>\<open>decorateBatch\<close>), of which the model keeps
  whether it is active. The pattern \<^verbatim>\<open>m_re\<close> and the virtual method
  \<^verbatim>\<open>decorate(QTextCursor *)\<close> are fixed when the object is built; they are parameters of
  the functions below. The virtual method works on the document through the cursor.
\<close>

record decorator =
  m_tc :: cursor
  m_timerDecorate :: bool

type_synonym hook = "document \<Rightarrow> cursor \<Rightarrow> document"

text \<open>
  A batch reads the elapsed time once at the end of every round of its loop: \<open>el i\<close> is
  the value of \<^verbatim>\<open>t.elapsed()\<close> (milliseconds) at the end of round \<open>i\<close>.
\<close>

type_synonym clock = "nat \<Rightarrow> nat"

lemma findBelow_less: "findBelow r t n = Cursor a p \<Longrightarrow> a < n"
  by (induction n) (auto split: option.splits)

lemma findBackward_less:
  "findBackward r doc tc = Cursor a p \<Longrightarrow> selectionStart (Cursor a p) < selectionStart tc"
  by (cases tc) (auto simp: findBackward_def dest!: findBelow_less split: option.splits)

text \<open>
  The \<^verbatim>\<open>do ... while (t.elapsed() < 20)\<close> loop of \<^verbatim>\<open>decorateBatch\<close>, from round \<open>i\<close> on.
  The result is the new \<^verbatim>\<open>m_tc\<close>, whether the loop was left through its condition (so
  that the timer is started), the document, and the cursors handed to the virtual
  \<^verbatim>\<open>decorate\<close>, in the order of the calls.
\<close>

function batchLoop ::
  "rx \<Rightarrow> hook \<Rightarrow> clock \<Rightarrow> nat \<Rightarrow> document \<Rightarrow> cursor \<Rightarrow> cursor \<times> bool \<times> document \<times> cursor list"
where
  "batchLoop re h el i doc tc =
     (case findBackward re doc tc of
        NullCursor \<Rightarrow> (NullCursor, False, doc, [])
      | Cursor a p \<Rightarrow>
          (if el i < 20 then
             (case batchLoop re h el (Suc i) (h doc (Cursor a p)) (Cursor a p) of
                (tc', started, doc', tr) \<Rightarrow> (tc', started, doc', Cursor a p # tr))
           else (Cursor a p, True, h doc (Cursor a p), [Cursor a p])))"
  by pat_completeness auto
termination
  by (relation "measure (\<lambda>(re, h, el, i, doc, tc). selectionStart tc)")
     (auto dest: findBackward_less)

text \<open>
  The slot \<^verbatim>\<open>decorateBatch\<close>: nothing happens on a null cursor; otherwise the loop runs
  and, when it is left through its condition, the timer is started.
\<close>

definition decorateBatch ::
  "rx \<Rightarrow> hook \<Rightarrow> clock \<Rightarrow> decorator \<Rightarrow> document \<Rightarrow> (decorator \<times> document) \<times> cursor list"
where
  "decorateBatch re h el dec doc =
     (if isNull (m_tc dec) then ((dec, doc), [])
      else
        (case batchLoop re h el 0 doc (m_tc dec) of
           (tc', started, doc', tr) \<Rightarrow>
             ((dec\<lparr>m_tc := tc', m_timerDecorate := (m_timerDecorate dec \<or> started)\<rparr>, doc'),
              tr)))"

text \<open>\<^verbatim>\<open>Decorator::decorate(QTextDocument *)\<close>: start decorating.\<close>

definition decorate ::
  "rx \<Rightarrow> hook \<Rightarrow> clock \<Rightarrow> decorator \<Rightarrow> document \<Rightarrow> (decorator \<times> document) \<times> cursor list"
where
  "decorate re h el dec doc = decorateBatch re h el (dec\<lparr>m_tc := endCursor doc\<rparr>) doc"

text \<open>
  The event loop delivers the timeout of an active single-shot timer: the timer stops and
  its slot runs. An inactive timer delivers nothing.
\<close>

definition timeout ::
  "rx \<Rightarrow> hook \<Rightarrow> clock \<Rightarrow> decorator \<Rightarrow> document \<Rightarrow> (decorator \<times> document) \<times> cursor list"
where
  "timeout re h el dec doc =
     (if m_timerDecorate dec then decorateBatch re h el (dec\<lparr>m_timerDecorate := False\<rparr>) doc
      else ((dec, doc), []))"

text \<open>
  A pass: \<^verbatim>\<open>decorate\<close> and then the timeouts of the decorator's timer, one after the
  other, until the timer is no longer active. \<open>els j\<close> is the clock of batch \<open>j\<close> of
  the pass. The result also counts the timeouts delivered and collects the cursors handed
  to the virtual \<^verbatim>\<open>decorate\<close>.
\<close>

definition pending :: "decorator \<Rightarrow> nat" where
  "pending dec =
     (if m_timerDecorate dec then
        (case m_tc dec of NullCursor \<Rightarrow> 1 | Cursor a p \<Rightarrow> Suc (Suc (selectionStart (Cursor a p))))
      else 0)"

lemma batchLoop_started:
  "batchLoop re h el i doc tc = (tc', started, doc', tr) \<Longrightarrow>
   (if started then \<not> isNull tc' \<and> selectionStart tc' < selectionStart tc
    else tc' = NullCursor)"
proof (induction re h el i doc tc arbitrary: tc' started doc' tr rule: batchLoop.induct)
  case (1 re h el i doc tc)
  show ?case
  proof (cases "findBackward re doc tc")
    case NullCursor
    then show ?thesis using "1.prems" by simp
  next
    case (Cursor a p)
    note less = findBackward_less[OF Cursor]
    show ?thesis
    proof (cases "el i < 20")
      case True
      obtain tc2 st2 doc2 tr2 where
        rec: "batchLoop re h el (Suc i) (h doc (Cursor a p)) (Cursor a p) = (tc2, st2, doc2, tr2)"
        by (metis prod_cases4)
      have eq: "tc' = tc2" "started = st2"
        using "1.prems" Cursor True rec by simp_all
      from "1.IH"[OF Cursor True rec]
      show ?thesis using eq less by (auto split: if_splits)
    next
      case False
      then have "tc' = Cursor a p" "started"
        using "1.prems" Cursor by simp_all
      then show ?thesis using less by simp
    qed
  qed
qed

lemma timeout_pending:
  assumes "m_timerDecorate dec" and "timeout re h el dec doc = ((dec', doc'), tr)"
  shows "pending dec' < pending dec"
proof (cases "m_tc dec")
  case NullCursor
  then show ?thesis using assms by (auto simp: timeout_def decorateBatch_def pending_def)
next
  case (Cursor a p)
  obtain tc2 st2 doc2 tr2 where
    rec: "batchLoop re h el 0 doc (Cursor a p) = (tc2, st2, doc2, tr2)"
    by (metis prod_cases4)
  have dec': "dec' = dec\<lparr>m_tc := tc2, m_timerDecorate := st2\<rparr>"
    using assms Cursor rec by (auto simp: timeout_def decorateBatch_def)
  show ?thesis
    using batchLoop_started[OF rec] dec' Cursor assms(1)
    by (cases tc2) (auto simp: pending_def split: if_splits)
qed

function continuations ::
  "rx \<Rightarrow> hook \<Rightarrow> (nat \<Rightarrow> clock) \<Rightarrow> nat \<Rightarrow> decorator \<Rightarrow> document \<Rightarrow>
   (decorator \<times> document) \<times> nat \<times> cursor list"
where
  "continuations re h els j dec doc =
     (if m_timerDecorate dec then
        (case timeout re h (els j) dec doc of
           ((dec', doc'), tr) \<Rightarrow>
             (case continuations re h els (Suc j) dec' doc' of
                (r, n, tr') \<Rightarrow> (r, Suc n, tr @ tr')))
      else ((dec, doc), 0, []))"
  by pat_completeness auto
termination
  by (relation "measure (\<lambda>(re, h, els, j, dec, doc). pending dec)")
     (auto intro: timeout_pending[OF _ sym])

definition pass ::
  "rx \<Rightarrow> hook \<Rightarrow> (nat \<Rightarrow> clock) \<Rightarrow> decorator \<Rightarrow> document \<Rightarrow>
   (decorator \<times> document) \<times> nat \<times> cursor list"
where
  "pass re h els dec doc =
     (case decorate re h (els 0) dec doc of
        ((dec', doc'), tr) \<Rightarrow>
          (case continuations re h els 1 dec' doc' of
             (r, n, tr') \<Rightarrow> (r, n, tr @ tr')))"

subsection \<open>LogDecorator\<close>

datatype LogLevel = LogNote | LogError | LogWarning | LogDebug | LogTrace

text \<open>
  Modelled from the spec: \<^verbatim>\<open>logLevelLabel\<close> is declared in \<^verbatim>\<open>common/log.h\<close>, which is not
  among the sources at hand. The specification names the labels of the five levels Note,
  Error, Warning, Debug and Trace, and writes a log line as label, colon, space, message.
\<close>

fun logLevelLabel :: "LogLevel \<Rightarrow> string" where
  "logLevelLabel LogNote = ''Note''"
| "logLevelLabel LogError = ''Error''"
| "logLevelLabel LogWarning = ''Warning''"
| "logLevelLabel LogDebug = ''Debug''"
| "logLevelLabel LogTrace = ''Trace''"

text \<open>The pattern of the \<^verbatim>\<open>LogDecorator\<close>: \<^verbatim>\<open>QRegExp("^.*: ")\<close>.\<close>

definition logRe :: rx where
  "logRe = Seq (Seq (Seq Caret (Star AnyChar)) (Lit CHR '':'')) (Lit CHR '' '')"

definition m_labelNote :: string where
  "m_labelNote = logLevelLabel LogNote"

definition m_labelError :: string where
  "m_labelError = logLevelLabel LogError"

definition m_labelWarning :: string where
  "m_labelWarning = logLevelLabel LogWarning"

definition m_labelDebug :: string where
  "m_labelDebug = logLevelLabel LogDebug"

definition m_labelTrace :: string where
  "m_labelTrace = logLevelLabel LogTrace"

text \<open>The formats the constructor builds from the font it is given.\<close>

definition normalFormat :: "qfont \<Rightarrow> charFormat" where
  "normalFormat fnt =
     \<lparr>font = Some (fnt\<lparr>bold := True\<rparr>), background = Some White, foreground = Some Black\<rparr>"

definition m_noteLogLevelFormat :: "qfont \<Rightarrow> charFormat" where
  "m_noteLogLevelFormat fnt = normalFormat fnt"

definition m_errorLogLevelFormat :: "qfont \<Rightarrow> charFormat" where
  "m_errorLogLevelFormat fnt = (normalFormat fnt)\<lparr>foreground := Some Red\<rparr>"

definition m_warningLogLevelFormat :: "qfont \<Rightarrow> charFormat" where
  "m_warningLogLevelFormat fnt = (normalFormat fnt)\<lparr>foreground := Some DarkRed\<rparr>"

definition m_debugLogLevelFormat :: "qfont \<Rightarrow> charFormat" where
  "m_debugLogLevelFormat fnt = (normalFormat fnt)\<lparr>foreground := Some (Rgb 100 100 200)\<rparr>"

definition m_traceLogLevelFormat :: "qfont \<Rightarrow> charFormat" where
  "m_traceLogLevelFormat fnt = (normalFormat fnt)\<lparr>foreground := Some (Rgb 200 150 100)\<rparr>"

text \<open>\<^verbatim>\<open>LogDecorator::decorate(QTextCursor *tc)\<close>.\<close>

definition logDecorate :: "qfont \<Rightarrow> hook" where
  "logDecorate fnt doc tc =
     (let text = selectedText doc tc in
      if prefix m_labelNote text then setCharFormat (m_noteLogLevelFormat fnt) doc tc
      else if prefix m_labelError text then setCharFormat (m_errorLogLevelFormat fnt) doc tc
      else if prefix m_labelWarning text then setCharFormat (m_warningLogLevelFormat fnt) doc tc
      else if prefix m_labelDebug text then setCharFormat (m_debugLogLevelFormat fnt) doc tc
      else if prefix m_labelTrace text then setCharFormat (m_traceLogLevelFormat fnt) doc tc
      else doc)"

subsection \<open>StringDecorator\<close>

text \<open>The pattern of the \<^verbatim>\<open>StringDecorator\<close>: \<^verbatim>\<open>QRegExp("\"[^\"]*\"|'[^']*'")\<close>.\<close>

definition stringRe :: rx where
  "stringRe =
     Alt (Seq (Seq (Lit DQ) (Star (NotLit DQ))) (Lit DQ))
         (Seq (Seq (Lit SQ) (Star (NotLit SQ))) (Lit SQ))"

definition m_stringFormat :: charFormat where
  "m_stringFormat = emptyFormat\<lparr>foreground := Some DarkGreen\<rparr>"

text \<open>\<^verbatim>\<open>StringDecorator::decorate(QTextCursor *tc)\<close>.\<close>

definition stringDecorate :: hook where
  "stringDecorate doc tc = setCharFormat m_stringFormat doc tc"

text \<open>
  Both virtual methods have one shape: the selected text decides on a format, or on none,
  and the format is given to the selection.
\<close>

definition styleHook :: "(string \<Rightarrow> charFormat option) \<Rightarrow> hook" where
  "styleHook classify doc tc =
     (case classify (selectedText doc tc) of
        None \<Rightarrow> doc
      | Some f \<Rightarrow> setCharFormat f doc tc)"

section \<open>The dialog\<close>

text \<open>
  \<^verbatim>\<open>showLogLines\<close>: the lines of a level that is not shown are removed with the pattern
  \<^verbatim>\<open>QRegExp("\n" + label + "[^\n]*")\<close>. The labels hold letters only, so the label part of
  the pattern is the sequence of its characters.
\<close>

definition lineRe :: "string \<Rightarrow> rx" where
  "lineRe label = Seq (Seq (Lit LF) (lits label)) (Star (NotLit LF))"

definition showLogLines :: "string \<Rightarrow> bool \<Rightarrow> LogLevel \<Rightarrow> string" where
  "showLogLines content sh level =
     (if sh then content else remove (lineRe (logLevelLabel level)) content)"

record logDialog =
  textBrowserLog :: document
  m_logDecorator :: decorator
  m_stringDecorator :: decorator
  m_showError :: bool
  m_showWarning :: bool
  m_showNote :: bool
  m_showDebug :: bool
  m_showTrace :: bool

text \<open>The font of the text browser, which the constructor hands to the \<^verbatim>\<open>LogDecorator\<close>.\<close>

definition monospace :: qfont where
  "monospace = \<lparr>family = ''Monospace'', bold = False\<rparr>"

text \<open>
  \<^verbatim>\<open>LogDialog::updateLog\<close>. The content of the log file (\<^verbatim>\<open>readLogFile()\<close>) and the clocks
  of the two batches that run inside the call are parameters. \<open>logContent\<close> is the text
  handed to \<^verbatim>\<open>setPlainText\<close>.
\<close>

definition logContent :: "logDialog \<Rightarrow> string \<Rightarrow> string" where
  "logContent dlg readLogFile =
     (let content = replace (LF # ''CopyQ '') [LF] readLogFile;
          content = showLogLines content (m_showError dlg) LogError;
          content = showLogLines content (m_showWarning dlg) LogWarning;
          content = showLogLines content (m_showNote dlg) LogNote;
          content = showLogLines content (m_showDebug dlg) LogDebug;
          content = showLogLines content (m_showTrace dlg) LogTrace
      in content)"

definition updateLog :: "string \<Rightarrow> clock \<Rightarrow> clock \<Rightarrow> logDialog \<Rightarrow> logDialog" where
  "updateLog readLogFile elLog elString dlg =
     (let doc = setPlainText (logContent dlg readLogFile) in
      case decorate logRe (logDecorate monospace) elLog (m_logDecorator dlg) doc of
        ((ld, doc1), trLog) \<Rightarrow>
          (case decorate stringRe stringDecorate elString (m_stringDecorator dlg) doc1 of
             ((sd, doc2), trString) \<Rightarrow>
               dlg\<lparr>textBrowserLog := doc2, m_logDecorator := ld, m_stringDecorator := sd\<rparr>))"

text \<open>The timeouts of the two decorators' timers, as the event loop delivers them.\<close>

datatype timerEvent = LogTimer clock | StringTimer clock

fun deliver :: "timerEvent \<Rightarrow> logDialog \<Rightarrow> logDialog" where
  "deliver (LogTimer el) dlg =
     (case timeout logRe (logDecorate monospace) el (m_logDecorator dlg) (textBrowserLog dlg) of
        ((ld, doc), tr) \<Rightarrow> dlg\<lparr>textBrowserLog := doc, m_logDecorator := ld\<rparr>)"
| "deliver (StringTimer el) dlg =
     (case timeout stringRe stringDecorate el (m_stringDecorator dlg) (textBrowserLog dlg) of
        ((sd, doc), tr) \<Rightarrow> dlg\<lparr>textBrowserLog := doc, m_stringDecorator := sd\<rparr>)"

section \<open>What the patterns match\<close>

text \<open>
  The strings a pattern matches from a given offset (the flag: the offset is the caret
  offset), as a set; the matcher finds the longest prefix of its input in this set.
\<close>

inductive_set rx_star :: "string set \<Rightarrow> string set" for A :: "string set" where
  rx_star_nil: "[] \<in> rx_star A"
| rx_star_app: "u \<in> A \<Longrightarrow> v \<in> rx_star A \<Longrightarrow> u @ v \<in> rx_star A"

fun L :: "bool \<Rightarrow> rx \<Rightarrow> string set" where
  "L st Fail = {}"
| "L st Eps = {[]}"
| "L st Caret = (if st then {[]} else {})"
| "L st AnyChar = {[c] |c. True}"
| "L st (Lit c) = {[c]}"
| "L st (NotLit c) = {[d] |d. d \<noteq> c}"
| "L st (Seq a b) = {u @ v |u v. u \<in> L st a \<and> v \<in> L (st \<and> u = []) b}"
| "L st (Alt a b) = L st a \<union> L st b"
| "L st (Star a) = {u @ v |u v. u \<in> insert [] (L st a) \<and> v \<in> rx_star (L False a)}"

lemma L_mono: "w \<in> L False r \<Longrightarrow> w \<in> L st r"
proof (induction r arbitrary: w st)
  case (Seq a b)
  from Seq.prems obtain u v where uv: "w = u @ v" "u \<in> L False a" "v \<in> L False b"
    by auto
  have "u \<in> L st a" "v \<in> L (st \<and> u = []) b"
    using uv Seq.IH by blast+
  then show ?case using uv(1) by auto
next
  case (Alt a b)
  then show ?case by auto
next
  case (Star a)
  from Star.prems obtain u v where uv: "w = u @ v" "u = [] \<or> u \<in> L False a"
    "v \<in> rx_star (L False a)"
    by auto
  have "u = [] \<or> u \<in> L st a" using uv(2) Star.IH by blast
  then show ?case using uv(1,3) by auto
qed simp_all

lemma nullable_iff: "nullable st r \<longleftrightarrow> [] \<in> L st r"
  by (induction r) (auto intro: rx_star_nil)

lemma rx_star_nonempty:
  "x \<in> rx_star A \<Longrightarrow> x \<noteq> [] \<Longrightarrow>
   \<exists>u v. x = u @ v \<and> u \<noteq> [] \<and> u \<in> A \<and> v \<in> rx_star A"
proof (induction rule: rx_star.induct)
  case rx_star_nil
  then show ?case by simp
next
  case (rx_star_app u v)
  show ?case
  proof (cases "u = []")
    case True
    then have "v \<noteq> []" using rx_star_app.prems by simp
    then obtain u' v' where "v = u' @ v'" "u' \<noteq> []" "u' \<in> A" "v' \<in> rx_star A"
      using rx_star_app.IH by blast
    then have "u @ v = u' @ v' \<and> u' \<noteq> [] \<and> u' \<in> A \<and> v' \<in> rx_star A"
      using True by simp
    then show ?thesis by (intro exI)
  next
    case False
    have "u @ v = u @ v \<and> u \<noteq> [] \<and> u \<in> A \<and> v \<in> rx_star A"
      using False rx_star_app.hyps by simp
    then show ?thesis by (intro exI)
  qed
qed

lemma L_False_Star: "L False (Star a) = rx_star (L False a)"
proof
  show "L False (Star a) \<subseteq> rx_star (L False a)"
    by (auto intro: rx_star_app)
  show "rx_star (L False a) \<subseteq> L False (Star a)"
  proof
    fix x assume "x \<in> rx_star (L False a)"
    then have "[] @ x \<in> L False (Star a)" by (simp del: append_Nil) blast
    then show "x \<in> L False (Star a)" by simp
  qed
qed

lemma deriv_iff: "w \<in> L False (deriv st c r) \<longleftrightarrow> c # w \<in> L st r"
proof (induction r arbitrary: w)
  case Fail
  show ?case by simp
next
  case Eps
  show ?case by simp
next
  case Caret
  show ?case by simp
next
  case AnyChar
  show ?case by simp
next
  case (Lit d)
  show ?case by auto
next
  case (NotLit d)
  show ?case by auto
next
  case (Alt a b)
  then show ?case by simp
next
  case (Seq a b)
  show ?case
  proof
    assume "w \<in> L False (deriv st c (Seq a b))"
    then consider (l) u v where "w = u @ v" "u \<in> L False (deriv st c a)" "v \<in> L False b"
      | (r) "nullable st a" "w \<in> L False (deriv st c b)"
      by (auto split: if_splits)
    then show "c # w \<in> L st (Seq a b)"
    proof cases
      case l
      then have "c # u \<in> L st a" using Seq.IH(1) by simp
      moreover have "v \<in> L (st \<and> c # u = []) b" using l(3) by simp
      ultimately have "\<exists>u' v'. c # w = u' @ v' \<and> u' \<in> L st a \<and> v' \<in> L (st \<and> u' = []) b"
        using l(1) by (intro exI[of _ "c # u"] exI[of _ v]) simp
      then show ?thesis by simp
    next
      case r
      then have "[] \<in> L st a" "c # w \<in> L st b" using Seq.IH(2) nullable_iff by auto
      then have "\<exists>u' v'. c # w = u' @ v' \<and> u' \<in> L st a \<and> v' \<in> L (st \<and> u' = []) b"
        by (intro exI[of _ "[]"] exI[of _ "c # w"]) simp
      then show ?thesis by simp
    qed
  next
    assume "c # w \<in> L st (Seq a b)"
    then obtain u v where uv: "c # w = u @ v" "u \<in> L st a" "v \<in> L (st \<and> u = []) b" by auto
    show "w \<in> L False (deriv st c (Seq a b))"
    proof (cases u)
      case Nil
      then have "nullable st a" "w \<in> L False (deriv st c b)"
        using uv Seq.IH(2) nullable_iff by auto
      then show ?thesis by simp
    next
      case (Cons d u')
      then have "d = c" "w = u' @ v" using uv(1) by auto
      moreover have "u' \<in> L False (deriv st c a)" "v \<in> L False b"
        using uv Cons Seq.IH(1) \<open>d = c\<close> by auto
      ultimately have "\<exists>x y. w = x @ y \<and> x \<in> L False (deriv st c a) \<and> y \<in> L False b"
        by blast
      then show ?thesis by simp
    qed
  qed
next
  case (Star a)
  show ?case
  proof
    assume "w \<in> L False (deriv st c (Star a))"
    then obtain u v where uv: "w = u @ v" "u \<in> L False (deriv st c a)" "v \<in> L False (Star a)"
      by (auto simp del: L.simps(9))
    have "c # u \<in> L st a" using uv(2) Star.IH by simp
    moreover have "v \<in> rx_star (L False a)" using uv(3) unfolding L_False_Star .
    ultimately have "c # u \<in> L st a" "v \<in> rx_star (L False a)" .
    then have "\<exists>u' v'. c # w = u' @ v' \<and> u' \<in> insert [] (L st a) \<and> v' \<in> rx_star (L False a)"
      using uv(1) by (intro exI[of _ "c # u"] exI[of _ v]) simp
    then show "c # w \<in> L st (Star a)" by simp
  next
    assume "c # w \<in> L st (Star a)"
    then obtain u v where uv: "c # w = u @ v" "u = [] \<or> u \<in> L st a" "v \<in> rx_star (L False a)"
      by auto
    have "\<exists>u' v'. c # w = u' @ v' \<and> u' \<noteq> [] \<and> u' \<in> L st a \<and> v' \<in> rx_star (L False a)"
    proof (cases "u = []")
      case True
      then have "c # w \<in> rx_star (L False a)" using uv by simp
      from rx_star_nonempty[OF this] show ?thesis using L_mono by blast
    next
      case False
      then show ?thesis using uv by blast
    qed
    then obtain u' v' where h: "c # w = u' @ v'" "u' \<noteq> []" "u' \<in> L st a" "v' \<in> rx_star (L False a)"
      by blast
    then obtain u'' where u'': "u' = c # u''" "w = u'' @ v'" by (cases u') auto
    have "u'' \<in> L False (deriv st c a)" using h(3) u''(1) Star.IH by simp
    moreover have "v' \<in> L False (Star a)" using h(4) unfolding L_False_Star .
    ultimately have "\<exists>x y. w = x @ y \<and> x \<in> L False (deriv st c a) \<and> y \<in> L False (Star a)"
      using u''(2) by blast
    then show "w \<in> L False (deriv st c (Star a))" by (simp del: L.simps(9))
  qed
qed

lemma lmatch_le: "lmatch st r s = Some n \<Longrightarrow> n \<le> length s"
  by (induction s arbitrary: st r n) (auto split: option.splits if_splits)

lemma lmatch_None_iff:
  "lmatch st r s = None \<longleftrightarrow> (\<forall>m\<le>length s. take m s \<notin> L st r)"
proof (induction s arbitrary: st r)
  case Nil
  then show ?case by (simp add: nullable_iff)
next
  case (Cons c cs)
  have "(\<forall>m\<le>length (c # cs). take m (c # cs) \<notin> L st r) \<longleftrightarrow>
        [] \<notin> L st r \<and> (\<forall>m\<le>length cs. take m cs \<notin> L False (deriv st c r))"
    (is "?A \<longleftrightarrow> ?B")
  proof
    assume a: ?A
    have "[] \<notin> L st r" using a[rule_format, of 0] by simp
    moreover have "take m cs \<notin> L False (deriv st c r)" if "m \<le> length cs" for m
      using a[rule_format, of "Suc m"] that by (simp add: deriv_iff)
    ultimately show ?B by blast
  next
    assume b: ?B
    show ?A
    proof (intro allI impI)
      fix m assume "m \<le> length (c # cs)"
      then show "take m (c # cs) \<notin> L st r"
        using b by (cases m) (auto simp: deriv_iff)
    qed
  qed
  moreover have "lmatch st r (c # cs) = None \<longleftrightarrow>
      lmatch False (deriv st c r) cs = None \<and> [] \<notin> L st r"
    by (simp add: nullable_iff split: option.splits)
  ultimately show ?case using Cons.IH[of False "deriv st c r"] by blast
qed

lemma take_Cons_in_L:
  "take (Suc m) (c # cs) \<in> L st r \<longleftrightarrow> take m cs \<in> L False (deriv st c r)"
  by (simp add: deriv_iff)

lemma lmatch_Some_max:
  "lmatch st r s = Some n \<Longrightarrow>
   take n s \<in> L st r \<and> (\<forall>m. n < m \<and> m \<le> length s \<longrightarrow> take m s \<notin> L st r)"
proof (induction s arbitrary: st r n)
  case Nil
  then show ?case by (simp add: nullable_iff split: if_splits)
next
  case (Cons c cs)
  show ?case
  proof (cases "lmatch False (deriv st c r) cs")
    case None
    from Cons.prems None have n: "n = 0" and nl: "[] \<in> L st r"
      by (simp_all add: nullable_iff split: if_splits)
    have "take m (c # cs) \<notin> L st r" if m: "n < m" "m \<le> length (c # cs)" for m
    proof -
      obtain m' where m': "m = Suc m'" using m(1) gr0_implies_Suc[of m] by auto
      have "m' \<le> length cs" using m(2) m' by simp
      then have "take m' cs \<notin> L False (deriv st c r)"
        using None lmatch_None_iff[of False "deriv st c r" cs] by blast
      then show ?thesis unfolding m' take_Cons_in_L .
    qed
    then show ?thesis using n nl by simp
  next
    case (Some k)
    from Cons.prems Some have n: "n = Suc k" by simp
    note ih = Cons.IH[OF Some]
    have "take k cs \<in> L False (deriv st c r)" using ih by blast
    then have here: "take n (c # cs) \<in> L st r" unfolding n take_Cons_in_L .
    have "take m (c # cs) \<notin> L st r" if m: "n < m" "m \<le> length (c # cs)" for m
    proof -
      obtain m' where m': "m = Suc m'" using m(1) gr0_implies_Suc[of m] by auto
      have "k < m'" "m' \<le> length cs" using m m' n by simp_all
      then have "take m' cs \<notin> L False (deriv st c r)" using ih by blast
      then show ?thesis unfolding m' take_Cons_in_L .
    qed
    then show ?thesis using here by blast
  qed
qed

lemma lmatch_Some_iff:
  "lmatch st r s = Some n \<longleftrightarrow>
     n \<le> length s \<and> take n s \<in> L st r \<and> (\<forall>m. n < m \<and> m \<le> length s \<longrightarrow> take m s \<notin> L st r)"
proof
  assume "lmatch st r s = Some n"
  then show "n \<le> length s \<and> take n s \<in> L st r \<and>
      (\<forall>m. n < m \<and> m \<le> length s \<longrightarrow> take m s \<notin> L st r)"
    using lmatch_le lmatch_Some_max by blast
next
  assume a: "n \<le> length s \<and> take n s \<in> L st r \<and>
      (\<forall>m. n < m \<and> m \<le> length s \<longrightarrow> take m s \<notin> L st r)"
  then have "lmatch st r s \<noteq> None" using lmatch_None_iff[of st r s] by blast
  then obtain k where k: "lmatch st r s = Some k" by blast
  have kk: "k \<le> length s" "take k s \<in> L st r"
    "\<forall>m. k < m \<and> m \<le> length s \<longrightarrow> take m s \<notin> L st r"
    using lmatch_le[OF k] lmatch_Some_max[OF k] by blast+
  have "\<not> k < n" using kk(3) a by blast
  moreover have "\<not> n < k" using kk(1,2) a by blast
  ultimately show "lmatch st r s = Some n" using k by simp
qed

declare L.simps(9) [simp del]

lemma rx_star_AnyChar: "w \<in> rx_star (L False AnyChar)"
proof (induction w)
  case Nil
  show ?case by (rule rx_star_nil)
next
  case (Cons c w)
  have "[c] \<in> L False AnyChar" by simp
  from rx_star_app[OF this Cons] show ?case by simp
qed

lemma rx_star_NotLit: "w \<in> rx_star (L False (NotLit c)) \<longleftrightarrow> c \<notin> set w"
proof
  assume "w \<in> rx_star (L False (NotLit c))"
  then show "c \<notin> set w" by (induction rule: rx_star.induct) auto
next
  assume "c \<notin> set w"
  then show "w \<in> rx_star (L False (NotLit c))"
  proof (induction w)
    case Nil
    show ?case by (rule rx_star_nil)
  next
    case (Cons d w)
    then have "[d] \<in> L False (NotLit c)" "w \<in> rx_star (L False (NotLit c))" by auto
    from rx_star_app[OF this] show ?case by simp
  qed
qed

lemma L_Star_AnyChar: "L st (Star AnyChar) = UNIV"
proof -
  have "w \<in> L st (Star AnyChar)" for w
  proof -
    have "\<exists>u v. w = u @ v \<and> u \<in> insert [] (L st AnyChar) \<and> v \<in> rx_star (L False AnyChar)"
      using rx_star_AnyChar by (intro exI[of _ "[]"] exI[of _ w]) simp
    then show ?thesis by (simp add: L.simps(9))
  qed
  then show ?thesis by blast
qed

lemma L_Star_NotLit: "L st (Star (NotLit c)) = {w. c \<notin> set w}"
proof (intro set_eqI iffI)
  fix w assume "w \<in> L st (Star (NotLit c))"
  then obtain u v where "w = u @ v" "u = [] \<or> u \<in> L st (NotLit c)"
    "v \<in> rx_star (L False (NotLit c))"
    by (auto simp: L.simps(9))
  then show "w \<in> {w. c \<notin> set w}" using rx_star_NotLit by auto
next
  fix w assume "w \<in> {w. c \<notin> set w}"
  then have "\<exists>u v. w = u @ v \<and> u \<in> insert [] (L st (NotLit c)) \<and> v \<in> rx_star (L False (NotLit c))"
    using rx_star_NotLit by (intro exI[of _ "[]"] exI[of _ w]) simp
  then show "w \<in> L st (Star (NotLit c))" by (simp add: L.simps(9))
qed

lemma L_lits: "L st (lits s) = {s}"
  by (induction s arbitrary: st) auto

lemma L_logRe: "L st logRe = (if st then {w @ '': '' |w. True} else {})"
  by (auto simp: logRe_def L_Star_AnyChar)



lemma L_lineRe: "L st (lineRe lab) = {LF # lab @ w |w. LF \<notin> set w}"
  by (auto simp: lineRe_def L_Star_NotLit L_lits)

lemma findBackward_eq:
  "findBackward re doc tc = findBelow re (plainText doc) (selectionStart tc)"
  by (cases tc) (simp_all add: findBackward_def)

function allMatches :: "rx \<Rightarrow> string \<Rightarrow> nat \<Rightarrow> cursor list" where
  "allMatches re t n =
     (case findBelow re t n of
        NullCursor \<Rightarrow> []
      | Cursor a p \<Rightarrow> Cursor a p # allMatches re t a)"
  by pat_completeness auto
termination
  by (relation "measure (\<lambda>(re, t, n). n)") (auto dest: findBelow_less)

declare allMatches.simps [simp del]
declare batchLoop.simps [simp del]
declare continuations.simps [simp del]

definition keepsText :: "hook \<Rightarrow> bool" where
  "keepsText h = (\<forall>doc tc. plainText (h doc tc) = plainText doc)"

lemma findBelow_shape: "findBelow r t n = Cursor a p \<Longrightarrow> a \<le> p"
  by (induction n) (auto split: option.splits)

lemma batchLoop_Null:
  "findBackward re doc tc = NullCursor \<Longrightarrow>
   batchLoop re h el i doc tc = (NullCursor, False, doc, [])"
  by (simp add: batchLoop.simps)

lemma batchLoop_stop:
  "findBackward re doc tc = Cursor a p \<Longrightarrow> \<not> el i < 20 \<Longrightarrow>
   batchLoop re h el i doc tc = (Cursor a p, True, h doc (Cursor a p), [Cursor a p])"
  by (simp add: batchLoop.simps)

lemma batchLoop_go:
  "findBackward re doc tc = Cursor a p \<Longrightarrow> el i < 20 \<Longrightarrow>
   batchLoop re h el (Suc i) (h doc (Cursor a p)) (Cursor a p) = (tc', st, doc', tr) \<Longrightarrow>
   batchLoop re h el i doc tc = (tc', st, doc', Cursor a p # tr)"
  by (simp add: batchLoop.simps)

lemma batchLoop_cases:
  assumes "batchLoop re h el i doc tc = (tc', st, doc', tr)"
  obtains (null) "findBackward re doc tc = NullCursor" "tc' = NullCursor" "\<not> st" "doc' = doc" "tr = []"
  | (stop) a p where "findBackward re doc tc = Cursor a p" "\<not> el i < 20"
      "tc' = Cursor a p" "st" "doc' = h doc (Cursor a p)" "tr = [Cursor a p]"
  | (go) a p tr2 where "findBackward re doc tc = Cursor a p" "el i < 20"
      "batchLoop re h el (Suc i) (h doc (Cursor a p)) (Cursor a p) = (tc', st, doc', tr2)"
      "tr = Cursor a p # tr2"
proof (cases "findBackward re doc tc")
  case NullCursor
  from batchLoop_Null[OF NullCursor] assms
  have "tc' = NullCursor" "\<not> st" "doc' = doc" "tr = []" by simp_all
  then show ?thesis by (rule null[OF NullCursor])
next
  case (Cursor a p)
  show ?thesis
  proof (cases "el i < 20")
    case True
    obtain tc2 st2 doc2 tr2 where
      rec: "batchLoop re h el (Suc i) (h doc (Cursor a p)) (Cursor a p) = (tc2, st2, doc2, tr2)"
      by (metis prod_cases4)
    from batchLoop_go[of re doc tc a p el i h, OF Cursor True rec] assms
    have eqs: "tc2 = tc'" "st2 = st" "doc2 = doc'" "tr = Cursor a p # tr2" by simp_all
    show ?thesis
      by (rule go[OF Cursor True rec[unfolded eqs(1-3)] eqs(4)])
  next
    case False
    from batchLoop_stop[of re doc tc a p el i h, OF Cursor False] assms
    have "tc' = Cursor a p" "st" "doc' = h doc (Cursor a p)" "tr = [Cursor a p]" by simp_all
    then show ?thesis by (rule stop[OF Cursor False])
  qed
qed

lemma batchLoop_fold:
  "batchLoop re h el i doc tc = (tc', st, doc', tr) \<Longrightarrow> doc' = foldl h doc tr"
proof (induction re h el i doc tc arbitrary: tc' st doc' tr rule: batchLoop.induct)
  case (1 re h el i doc tc)
  from "1.prems" show ?case
  proof (cases rule: batchLoop_cases)
    case null
    then show ?thesis by simp
  next
    case (stop a p)
    then show ?thesis by simp
  next
    case (go a p tr2)
    from "1.IH"[OF go(1,2,3)] go(4) show ?thesis by simp
  qed
qed

lemma batchLoop_trace:
  "batchLoop re h el i doc tc = (tc', st, doc', tr) \<Longrightarrow>
   sorted_wrt (\<lambda>c c'. selectionStart c' < selectionStart c) tr \<and>
   list_all (\<lambda>c. \<not> isNull c \<and> selectionStart c < selectionStart tc) tr \<and>
   (if st then tr \<noteq> [] \<and> tc' = last tr else tc' = NullCursor)"
proof (induction re h el i doc tc arbitrary: tc' st doc' tr rule: batchLoop.induct)
  case (1 re h el i doc tc)
  from "1.prems" show ?case
  proof (cases rule: batchLoop_cases)
    case null
    then show ?thesis by simp
  next
    case (stop a p)
    then show ?thesis using findBackward_less[OF stop(1)] by simp
  next
    case (go a p tr2)
    note ih = "1.IH"[OF go(1,2,3)]
    note less = findBackward_less[OF go(1)]
    have all2: "list_all (\<lambda>c. \<not> isNull c \<and> selectionStart c < selectionStart (Cursor a p)) tr2"
      using ih by blast
    have "list_all (\<lambda>c. \<not> isNull c \<and> selectionStart c < selectionStart tc) tr2"
      using all2 less by (auto simp: list_all_iff)
    moreover have "\<forall>c\<in>set tr2. selectionStart c < selectionStart (Cursor a p)"
      using all2 by (auto simp: list_all_iff)
    moreover have "if st then tr \<noteq> [] \<and> tc' = last tr else tc' = NullCursor"
      using ih go(4) by (auto split: if_splits)
    ultimately show ?thesis using ih less go(4) by simp
  qed
qed

lemma batchLoop_allMatches:
  "batchLoop re h el i doc tc = (tc', st, doc', tr) \<Longrightarrow> keepsText h \<Longrightarrow>
   allMatches re (plainText doc) (selectionStart tc) =
     tr @ (if st then allMatches re (plainText doc) (selectionStart tc') else [])"
proof (induction re h el i doc tc arbitrary: tc' st doc' tr rule: batchLoop.induct)
  case (1 re h el i doc tc)
  have kt: "plainText (h doc c) = plainText doc" for c
    using "1.prems"(2) by (simp add: keepsText_def)
  from "1.prems"(1) show ?case
  proof (cases rule: batchLoop_cases)
    case null
    then show ?thesis
      by (simp add: findBackward_eq allMatches.simps[of re "plainText doc" "selectionStart tc"])
  next
    case (stop a p)
    have ap: "a \<le> p" using stop(1) findBelow_shape by (simp add: findBackward_eq)
    show ?thesis using stop ap
      by (simp add: findBackward_eq allMatches.simps[of re "plainText doc" "selectionStart tc"] min_def)
  next
    case (go a p tr2)
    have ap: "a \<le> p" using go(1) findBelow_shape by (simp add: findBackward_eq)
    from "1.IH"[OF go(1,2,3) "1.prems"(2)] kt
    have "allMatches re (plainText doc) a =
       tr2 @ (if st then allMatches re (plainText doc) (selectionStart tc') else [])"
      using ap by (simp add: min_def)
    then show ?thesis using go ap
      by (simp add: findBackward_eq allMatches.simps[of re "plainText doc" "selectionStart tc"])
  qed
qed

lemma findBelow_Null_iff:
  "findBelow r t n = NullCursor \<longleftrightarrow> (\<forall>g<n. matchAt r t g = None)"
proof (induction n)
  case 0
  show ?case by simp
next
  case (Suc n)
  show ?case
  proof (cases "matchAt r t n")
    case None
    then show ?thesis using Suc less_Suc_eq by auto
  next
    case (Some len)
    then show ?thesis by auto
  qed
qed

lemma findBelow_Cursor_iff:
  "findBelow r t n = Cursor a p \<longleftrightarrow>
     a < n \<and> (\<exists>len. matchAt r t a = Some len \<and> p = a + len) \<and>
     (\<forall>g. a < g \<and> g < n \<longrightarrow> matchAt r t g = None)"
proof (induction n)
  case 0
  show ?case by simp
next
  case (Suc n)
  show ?case
  proof (cases "matchAt r t n")
    case None
    have A: "matchAt r t g = None" if "a < g" "g < Suc n" "\<forall>g. a < g \<and> g < n \<longrightarrow> matchAt r t g = None" for g
    proof (cases "g = n")
      case True
      then show ?thesis using None by simp
    next
      case False
      then have "g < n" using that(2) by simp
      then show ?thesis using that(1,3) by blast
    qed
    have B: "a < n" if "a < Suc n" "matchAt r t a = Some len" for len
    proof (cases "a = n")
      case True
      then show ?thesis using None that(2) by simp
    next
      case False
      then show ?thesis using that(1) by simp
    qed
    have step: "findBelow r t (Suc n) = findBelow r t n" using None by simp
    show ?thesis unfolding step Suc
    proof (intro iffI)
      assume h: "a < n \<and> (\<exists>len. matchAt r t a = Some len \<and> p = a + len) \<and>
        (\<forall>g. a < g \<and> g < n \<longrightarrow> matchAt r t g = None)"
      then have "a < Suc n" by simp
      moreover have "\<forall>g. a < g \<and> g < Suc n \<longrightarrow> matchAt r t g = None"
        using A h by blast
      ultimately show "a < Suc n \<and> (\<exists>len. matchAt r t a = Some len \<and> p = a + len) \<and>
        (\<forall>g. a < g \<and> g < Suc n \<longrightarrow> matchAt r t g = None)"
        using h by blast
    next
      assume h: "a < Suc n \<and> (\<exists>len. matchAt r t a = Some len \<and> p = a + len) \<and>
        (\<forall>g. a < g \<and> g < Suc n \<longrightarrow> matchAt r t g = None)"
      then have "a < n" using B by blast
      moreover have "\<forall>g. a < g \<and> g < n \<longrightarrow> matchAt r t g = None"
        using h less_SucI by blast
      ultimately show "a < n \<and> (\<exists>len. matchAt r t a = Some len \<and> p = a + len) \<and>
        (\<forall>g. a < g \<and> g < n \<longrightarrow> matchAt r t g = None)"
        using h by blast
    qed
  next
    case (Some len)
    show ?thesis
    proof
      assume "findBelow r t (Suc n) = Cursor a p"
      then have "a = n" "p = n + len" using Some by simp_all
      then show "a < Suc n \<and> (\<exists>len. matchAt r t a = Some len \<and> p = a + len) \<and>
          (\<forall>g. a < g \<and> g < Suc n \<longrightarrow> matchAt r t g = None)"
        using Some by auto
    next
      assume a: "a < Suc n \<and> (\<exists>len. matchAt r t a = Some len \<and> p = a + len) \<and>
          (\<forall>g. a < g \<and> g < Suc n \<longrightarrow> matchAt r t g = None)"
      have "\<not> a < n"
      proof
        assume "a < n"
        then have "matchAt r t n = None" using a by blast
        then show False using Some by simp
      qed
      then have "a = n" using a by simp
      then show "findBelow r t (Suc n) = Cursor a p" using a Some by auto
    qed
  qed
qed

lemma allMatches_Null: "findBelow re t n = NullCursor \<Longrightarrow> allMatches re t n = []"
  by (simp add: allMatches.simps[of re t n])

lemma allMatches_Cursor:
  "findBelow re t n = Cursor a p \<Longrightarrow> allMatches re t n = Cursor a p # allMatches re t a"
  by (simp add: allMatches.simps[of re t n])

lemma allMatches_0: "allMatches re t 0 = []"
  by (simp add: allMatches_Null)

lemma allMatches_set:
  "Cursor a p \<in> set (allMatches re t n) \<longleftrightarrow>
     a < n \<and> (\<exists>len. matchAt re t a = Some len \<and> p = a + len)"
proof (induction re t n rule: allMatches.induct)
  case (1 re t n)
  show ?case
  proof (cases "findBelow re t n")
    case NullCursor
    then have "\<forall>g<n. matchAt re t g = None" by (simp add: findBelow_Null_iff)
    then show ?thesis using allMatches_Null[OF NullCursor] by auto
  next
    case (Cursor b q)
    note ih = "1.IH"[OF Cursor]
    from Cursor have b: "b < n" "\<exists>len. matchAt re t b = Some len \<and> q = b + len"
      "\<forall>g. b < g \<and> g < n \<longrightarrow> matchAt re t g = None"
      by (simp_all add: findBelow_Cursor_iff)
    show ?thesis
    proof
      assume "Cursor a p \<in> set (allMatches re t n)"
      then consider "a = b" "p = q" | "Cursor a p \<in> set (allMatches re t b)"
        using allMatches_Cursor[OF Cursor] by auto
      then show "a < n \<and> (\<exists>len. matchAt re t a = Some len \<and> p = a + len)"
      proof cases
        case 1
        then show ?thesis using b by simp
      next
        case 2
        then show ?thesis using ih b(1) by auto
      qed
    next
      assume r: "a < n \<and> (\<exists>len. matchAt re t a = Some len \<and> p = a + len)"
      then have "\<not> b < a" using b(3) by auto
      then consider "a = b" | "a < b" by linarith
      then show "Cursor a p \<in> set (allMatches re t n)"
      proof cases
        case 1
        then have "p = q" using r b(2) by auto
        then show ?thesis using 1 allMatches_Cursor[OF Cursor] by simp
      next
        case 2
        then have "Cursor a p \<in> set (allMatches re t b)" using ih r by simp
        then show ?thesis using allMatches_Cursor[OF Cursor] by simp
      qed
    qed
  qed
qed

lemma allMatches_all:
  "list_all (\<lambda>c. \<not> isNull c \<and> selectionStart c < n) (allMatches re t n)"
proof (induction re t n rule: allMatches.induct)
  case (1 re t n)
  show ?case
  proof (cases "findBelow re t n")
    case NullCursor
    then show ?thesis by (simp add: allMatches_Null)
  next
    case (Cursor b q)
    have bq: "b < n" "b \<le> q" using Cursor findBelow_less findBelow_shape by blast+
    have "list_all (\<lambda>c. \<not> isNull c \<and> selectionStart c < b) (allMatches re t b)"
      using "1.IH"[OF Cursor] .
    then have "list_all (\<lambda>c. \<not> isNull c \<and> selectionStart c < n) (allMatches re t b)"
      using bq(1) by (auto simp: list_all_iff)
    then show ?thesis using allMatches_Cursor[OF Cursor] bq by (simp add: min_def)
  qed
qed

lemma allMatches_sorted:
  "sorted_wrt (\<lambda>c c'. selectionStart c' < selectionStart c) (allMatches re t n)"
proof (induction re t n rule: allMatches.induct)
  case (1 re t n)
  show ?case
  proof (cases "findBelow re t n")
    case NullCursor
    then show ?thesis by (simp add: allMatches_Null)
  next
    case (Cursor b q)
    have bq: "b \<le> q" using Cursor findBelow_shape by blast
    have "\<forall>c\<in>set (allMatches re t b). selectionStart c < b"
      using allMatches_all[of b re t] by (auto simp: list_all_iff)
    then show ?thesis using allMatches_Cursor[OF Cursor] "1.IH"[OF Cursor] bq
      by (simp add: min_def)
  qed
qed

lemma allMatches_length: "length (allMatches re t n) \<le> n"
proof (induction re t n rule: allMatches.induct)
  case (1 re t n)
  show ?case
  proof (cases "findBelow re t n")
    case NullCursor
    then show ?thesis by (simp add: allMatches_Null)
  next
    case (Cursor b q)
    have "b < n" using Cursor findBelow_less by blast
    then show ?thesis using allMatches_Cursor[OF Cursor] "1.IH"[OF Cursor] by simp
  qed
qed

lemma allMatches_last:
  "allMatches re t n \<noteq> [] \<Longrightarrow>
   findBelow re t (selectionStart (last (allMatches re t n))) = NullCursor"
proof (induction re t n rule: allMatches.induct)
  case (1 re t n)
  show ?case
  proof (cases "findBelow re t n")
    case NullCursor
    then show ?thesis using "1.prems" by (simp add: allMatches_Null)
  next
    case (Cursor b q)
    have bq: "b \<le> q" using Cursor findBelow_shape by blast
    show ?thesis
    proof (cases "allMatches re t b = []")
      case True
      then have "findBelow re t b = NullCursor"
        by (cases "findBelow re t b") (simp_all add: allMatches_Cursor)
      then show ?thesis using allMatches_Cursor[OF Cursor] True bq by (simp add: min_def)
    next
      case False
      then show ?thesis using allMatches_Cursor[OF Cursor] "1.IH"[OF Cursor False] by simp
    qed
  qed
qed

lemma result_cases:
  obtains a b c where "x = ((a, b), c)"
  by (cases x) auto

lemma decorateBatch_cases:
  assumes "decorateBatch re h el dec doc = ((dec', doc'), tr)"
  obtains (idle) "isNull (m_tc dec)" "dec' = dec" "doc' = doc" "tr = []"
  | (run) tc' st where "\<not> isNull (m_tc dec)"
      "batchLoop re h el 0 doc (m_tc dec) = (tc', st, doc', tr)"
      "dec' = dec\<lparr>m_tc := tc', m_timerDecorate := (m_timerDecorate dec \<or> st)\<rparr>"
proof (cases "isNull (m_tc dec)")
  case True
  then have "dec' = dec" "doc' = doc" "tr = []"
    using assms by (simp_all add: decorateBatch_def)
  then show ?thesis by (rule idle[OF True])
next
  case False
  obtain tc2 st2 doc2 tr2 where
    rec: "batchLoop re h el 0 doc (m_tc dec) = (tc2, st2, doc2, tr2)"
    by (metis prod_cases4)
  have eqs: "doc2 = doc'" "tr2 = tr"
    "dec' = dec\<lparr>m_tc := tc2, m_timerDecorate := (m_timerDecorate dec \<or> st2)\<rparr>"
    using assms False rec by (simp_all add: decorateBatch_def)
  show ?thesis by (rule run[OF False rec[unfolded eqs(1,2)] eqs(3)])
qed

lemma continuations_idle:
  "\<not> m_timerDecorate dec \<Longrightarrow> continuations re h els j dec doc = ((dec, doc), 0, [])"
  by (simp add: continuations.simps)

lemma continuations_step:
  "m_timerDecorate dec \<Longrightarrow> timeout re h (els j) dec doc = ((dec1, doc1), tr1) \<Longrightarrow>
   continuations re h els (Suc j) dec1 doc1 = (r, n, tr2) \<Longrightarrow>
   continuations re h els j dec doc = (r, Suc n, tr1 @ tr2)"
  by (simp add: continuations.simps[of re h els j dec doc])

lemma continuations_result:
  "continuations re h els j dec doc = ((dec', doc'), n, tr) \<Longrightarrow> keepsText h \<Longrightarrow>
   m_timerDecorate dec \<Longrightarrow>
   tr = allMatches re (plainText doc) (selectionStart (m_tc dec)) \<and>
   doc' = foldl h doc tr \<and> m_tc dec' = NullCursor \<and> \<not> m_timerDecorate dec' \<and>
   n \<le> Suc (length tr)"
proof (induction re h els j dec doc arbitrary: dec' doc' n tr rule: continuations.induct)
  case (1 re h els j dec doc)
  note act = "1.prems"(3) and kt = "1.prems"(2)
  obtain dec1 doc1 tr1 where
    to: "timeout re h (els j) dec doc = ((dec1, doc1), tr1)"
    by (rule result_cases)
  obtain r2 n2 tr2 where
    rec: "continuations re h els (Suc j) dec1 doc1 = (r2, n2, tr2)"
    by (metis prod_cases3)
  from continuations_step[OF act to rec] "1.prems"(1)
  have res: "r2 = (dec', doc')" "n = Suc n2" "tr = tr1 @ tr2" by simp_all
  note ih = "1.IH"[OF act to[symmetric] refl rec[unfolded res(1)] kt]
  have db: "decorateBatch re h (els j) (dec\<lparr>m_timerDecorate := False\<rparr>) doc = ((dec1, doc1), tr1)"
    using to act by (simp add: timeout_def)
  from db show ?case
  proof (cases rule: decorateBatch_cases)
    case idle
    then have nul: "m_tc dec = NullCursor" by (cases "m_tc dec") simp_all
    have "\<not> m_timerDecorate dec1" using idle by simp
    from continuations_idle[OF this] rec res idle
    have "dec' = dec\<lparr>m_timerDecorate := False\<rparr>" "doc' = doc" "n2 = 0" "tr2 = []"
      by simp_all
    then show ?thesis using res idle nul by (simp add: allMatches_0)
  next
    case (run tc' st)
    note fold1 = batchLoop_fold[OF run(2)]
    note tr1 = batchLoop_trace[OF run(2)]
    have am: "allMatches re (plainText doc) (selectionStart (m_tc dec)) =
        tr1 @ (if st then allMatches re (plainText doc) (selectionStart tc') else [])"
      using batchLoop_allMatches[OF run(2) kt] by simp
    have text1: "plainText doc1 = plainText doc"
    proof -
      have "plainText (foldl h d xs) = plainText d" for d xs
        using kt by (induction xs arbitrary: d) (simp_all add: keepsText_def)
      then show ?thesis using fold1 by simp
    qed
    show ?thesis
    proof (cases st)
      case True
      then have act1: "m_timerDecorate dec1" and tc1: "m_tc dec1 = tc'"
        using run(3) by simp_all
      note ih1 = ih[OF act1, unfolded tc1 text1]
      have
        "tr2 = allMatches re (plainText doc) (selectionStart tc')"
        "doc' = foldl h doc1 tr2" "m_tc dec' = NullCursor" "\<not> m_timerDecorate dec'"
        "n2 \<le> Suc (length tr2)"
        using ih1 by blast+
      moreover have "tr1 \<noteq> []" using tr1 True by simp
      ultimately show ?thesis using res am True fold1 by (cases tr1) simp_all
    next
      case False
      then have "\<not> m_timerDecorate dec1" and tc1: "m_tc dec1 = NullCursor"
        using run(3) tr1 by simp_all
      from continuations_idle[OF this(1)] rec res
      have "dec' = dec1" "doc' = doc1" "n2 = 0" "tr2 = []" by simp_all
      then show ?thesis using res am False fold1 tc1 \<open>\<not> m_timerDecorate dec1\<close> by simp
    qed
  qed
qed

lemma keepsText_foldl: "keepsText h \<Longrightarrow> plainText (foldl h d xs) = plainText d"
  by (induction xs arbitrary: d) (simp_all add: keepsText_def)

lemma pass_result:
  assumes "keepsText h" and "pass re h els dec doc = ((dec', doc'), n, tr)"
  shows "tr = allMatches re (plainText doc) (length (plainText doc))"
    and "doc' = foldl h doc tr"
    and "\<not> m_timerDecorate dec'"
    and "n \<le> Suc (length tr)"
    and "\<not> m_timerDecorate dec \<Longrightarrow> n \<le> length tr"
    and "m_tc dec' = NullCursor"
    and "dec' = \<lparr>m_tc = NullCursor, m_timerDecorate = False\<rparr>"
proof -
  obtain dec1 doc1 tr1 where
    d: "decorate re h (els 0) dec doc = ((dec1, doc1), tr1)"
    by (rule result_cases)
  obtain r2 n2 tr2 where
    rec: "continuations re h els 1 dec1 doc1 = (r2, n2, tr2)"
    by (metis prod_cases3)
  have res: "r2 = (dec', doc')" "n = n2" "tr = tr1 @ tr2"
    using assms(2) d rec by (simp_all add: pass_def)
  have db: "decorateBatch re h (els 0) (dec\<lparr>m_tc := endCursor doc\<rparr>) doc = ((dec1, doc1), tr1)"
    using d by (simp add: decorate_def)
  have nn: "\<not> isNull (m_tc (dec\<lparr>m_tc := endCursor doc\<rparr>))" by (simp add: endCursor_def)
  from db obtain tc' st where
    bl: "batchLoop re h (els 0) 0 doc (endCursor doc) = (tc', st, doc1, tr1)" and
    dec1: "dec1 = dec\<lparr>m_tc := tc', m_timerDecorate := (m_timerDecorate dec \<or> st)\<rparr>"
  proof (cases rule: decorateBatch_cases)
    case idle
    then show ?thesis using nn by simp
  next
    case (run tc' st)
    then show ?thesis using that by simp
  qed
  note fold1 = batchLoop_fold[OF bl]
  note tr1 = batchLoop_trace[OF bl]
  have am: "allMatches re (plainText doc) (length (plainText doc)) =
      tr1 @ (if st then allMatches re (plainText doc) (selectionStart tc') else [])"
    using batchLoop_allMatches[OF bl assms(1)] by (simp add: endCursor_def)
  have text1: "plainText doc1 = plainText doc"
    using fold1 keepsText_foldl[OF assms(1)] by simp
  have stnull: "\<not> st \<Longrightarrow> tc' = NullCursor" using tr1 by simp
  have all: "tr = allMatches re (plainText doc) (length (plainText doc)) \<and>
    doc' = foldl h doc tr \<and> \<not> m_timerDecorate dec' \<and> n \<le> Suc (length tr) \<and>
    m_tc dec' = NullCursor \<and> (\<not> m_timerDecorate dec \<longrightarrow> n \<le> length tr)"
  proof (cases "m_timerDecorate dec1")
    case True
    have tc1: "m_tc dec1 = tc'" using dec1 by simp
    note cr = continuations_result[OF rec[unfolded res(1)] assms(1) True, unfolded tc1 text1]
    have c: "tr2 = allMatches re (plainText doc) (selectionStart tc')"
      "doc' = foldl h doc1 tr2" "m_tc dec' = NullCursor" "\<not> m_timerDecorate dec'"
      "n2 \<le> Suc (length tr2)"
      using cr by blast+
    show ?thesis
    proof (cases st)
      case True
      then have "tr1 \<noteq> []" using tr1 by simp
      then show ?thesis using c res am True fold1 by (cases tr1) simp_all
    next
      case False
      then have "tc' = NullCursor" using stnull by simp
      then have "tr2 = []" using c(1) by (simp add: allMatches_0)
      moreover have "m_timerDecorate dec" using True dec1 False by simp
      ultimately show ?thesis using c res am False fold1 by simp
    qed
  next
    case False
    from continuations_idle[OF False] rec res
    have "dec' = dec1" "doc' = doc1" "n2 = 0" "tr2 = []" by simp_all
    moreover have "\<not> st" using False dec1 by simp
    ultimately show ?thesis using res am fold1 False dec1 stnull by simp
  qed
  show "tr = allMatches re (plainText doc) (length (plainText doc))"
    and "doc' = foldl h doc tr"
    and "\<not> m_timerDecorate dec'"
    and "n \<le> Suc (length tr)"
    and "\<not> m_timerDecorate dec \<Longrightarrow> n \<le> length tr"
    and "m_tc dec' = NullCursor"
    using all by blast+
  show "dec' = \<lparr>m_tc = NullCursor, m_timerDecorate = False\<rparr>"
    using all by (cases dec') simp
qed

lemma findBelow_numeral [simp]:
  "findBelow r t (numeral k) =
     (case matchAt r t (pred_numeral k) of
        Some len \<Rightarrow> Cursor (pred_numeral k) (pred_numeral k + len)
      | None \<Rightarrow> findBelow r t (pred_numeral k))"
  by (simp add: numeral_eq_Suc)

lemma replaceFrom_numeral [simp]:
  "replaceFrom bef aft (numeral k) (c # cs) = replaceFrom bef aft (pred_numeral k) cs"
  by (simp add: numeral_eq_Suc)

lemma removeFrom_numeral [simp]:
  "removeFrom r st (numeral k) (c # cs) = removeFrom r False (pred_numeral k) cs"
  by (simp add: numeral_eq_Suc)

lemmas eval_defs = pass_def decorate_def decorateBatch_def batchLoop.simps continuations.simps
  timeout_def findBackward_def setPlainText_def matchAt_def blockStart_def blockTail_def
  endCursor_def stringDecorate_def setCharFormat_def selectedText_def

lemma sorted_wrt_distinct_starts:
  "sorted_wrt (\<lambda>c c'. selectionStart c' < selectionStart c) tr \<Longrightarrow>
   distinct (map selectionStart tr)"
  by (induction tr) auto

lemma keepsText_stringDecorate: "keepsText stringDecorate"
  by (simp add: keepsText_def stringDecorate_def setCharFormat_def)

lemma keepsText_logDecorate: "keepsText (logDecorate fnt)"
  by (simp add: keepsText_def logDecorate_def setCharFormat_def Let_def)

lemma keepsText_styleHook: "keepsText (styleHook classify)"
  by (simp add: keepsText_def styleHook_def setCharFormat_def split: option.splits)

text \<open>
  Claim C9. A batch that starts on a cursor that is not null searches backward at least once
  before it reads the clock. When the search finds nothing the batch ends the pass (the
  cursor becomes null, the document is untouched). When it finds a match, the match is the
  first cursor handed to the virtual \<^verbatim>\<open>decorate\<close>, the document is the result of the hook on
  that match and on the matches that followed, and the cursor the batch leaves is strictly
  before the one it started from. This holds for every clock; when the very first reading
  is already 20 ms or more, exactly that one match is styled and the timer is started.
\<close>

theorem decorateBatch_progress:
  assumes "\<not> isNull (m_tc dec)"
  shows "(findBackward re doc (m_tc dec) = NullCursor \<longrightarrow>
           decorateBatch re h el dec doc = ((dec\<lparr>m_tc := NullCursor\<rparr>, doc), []))
       \<and> (\<forall>a p. findBackward re doc (m_tc dec) = Cursor a p \<longrightarrow>
            (\<exists>dec' doc' tr'.
                decorateBatch re h el dec doc = ((dec', doc'), Cursor a p # tr') \<and>
                doc' = foldl h (h doc (Cursor a p)) tr' \<and>
                selectionStart (m_tc dec') < selectionStart (m_tc dec)) \<and>
            (\<not> el 0 < 20 \<longrightarrow>
                decorateBatch re h el dec doc =
                  ((dec\<lparr>m_tc := Cursor a p, m_timerDecorate := True\<rparr>, h doc (Cursor a p)),
                   [Cursor a p])))"
proof (intro conjI allI impI)
  assume "findBackward re doc (m_tc dec) = NullCursor"
  from batchLoop_Null[OF this] assms
  show "decorateBatch re h el dec doc = ((dec\<lparr>m_tc := NullCursor\<rparr>, doc), [])"
    by (simp add: decorateBatch_def)
next
  fix a p
  assume f: "findBackward re doc (m_tc dec) = Cursor a p"
  obtain dec' doc' tr where db: "decorateBatch re h el dec doc = ((dec', doc'), tr)"
    by (rule result_cases)
  from db obtain tc' st where
    bl: "batchLoop re h el 0 doc (m_tc dec) = (tc', st, doc', tr)" and
    dec': "dec' = dec\<lparr>m_tc := tc', m_timerDecorate := (m_timerDecorate dec \<or> st)\<rparr>"
  proof (cases rule: decorateBatch_cases)
    case idle
    then show ?thesis using assms by simp
  next
    case (run tc' st)
    then show ?thesis using that by simp
  qed
  note less = findBackward_less[OF f]
  from bl have "\<exists>tr'. tr = Cursor a p # tr' \<and> doc' = foldl h (h doc (Cursor a p)) tr' \<and>
      selectionStart tc' < selectionStart (m_tc dec)"
  proof (cases rule: batchLoop_cases)
    case null
    then show ?thesis using f by simp
  next
    case (stop b q)
    then show ?thesis using f less by simp
  next
    case (go b q tr2)
    then have bq: "b = a" "q = p" using f by simp_all
    note fold2 = batchLoop_fold[OF go(3)]
    note tr2 = batchLoop_trace[OF go(3)]
    have "selectionStart tc' \<le> selectionStart (Cursor a p)"
    proof (cases st)
      case True
      then have "tr2 \<noteq> []" "tc' = last tr2" using tr2 by simp_all
      then have "tc' \<in> set tr2" by simp
      then show ?thesis using tr2 bq by (auto simp: list_all_iff)
    next
      case False
      then have "tc' = NullCursor" using tr2 by simp
      then show ?thesis by simp
    qed
    then have "selectionStart tc' < selectionStart (m_tc dec)"
      using less by (auto simp: min_def split: if_splits)
    then show ?thesis using go(4) fold2 bq by simp
  qed
  then show "\<exists>dec' doc' tr'.
      decorateBatch re h el dec doc = ((dec', doc'), Cursor a p # tr') \<and>
      doc' = foldl h (h doc (Cursor a p)) tr' \<and>
      selectionStart (m_tc dec') < selectionStart (m_tc dec)"
    using db dec' by auto
next
  fix a p
  assume f: "findBackward re doc (m_tc dec) = Cursor a p" and e: "\<not> el 0 < 20"
  from batchLoop_stop[of re doc "m_tc dec" a p el 0 h, OF f e] assms
  show "decorateBatch re h el dec doc =
      ((dec\<lparr>m_tc := Cursor a p, m_timerDecorate := True\<rparr>, h doc (Cursor a p)), [Cursor a p])"
    by (simp add: decorateBatch_def)
qed

definition quotedDoc :: document where
  "quotedDoc = setPlainText [SQ, CHR ''a'', SQ, CHR '' '']"

definition atEnd :: decorator where
  "atEnd = \<lparr>m_tc = Cursor 4 4, m_timerDecorate = False\<rparr>"

theorem decorateBatch_progress_witness:
  "\<not> isNull (m_tc atEnd) \<and>
   findBackward stringRe quotedDoc (m_tc atEnd) = Cursor 0 3 \<and>
   \<not> (20::nat) < 20 \<and>
   decorateBatch stringRe stringDecorate (\<lambda>i. 20) atEnd quotedDoc =
     ((\<lparr>m_tc = Cursor 0 3, m_timerDecorate = True\<rparr>,
       \<lparr>plainText = [SQ, CHR ''a'', SQ, CHR '' ''],
        charFormats = [m_stringFormat, m_stringFormat, m_stringFormat, emptyFormat]\<rparr>),
      [Cursor 0 3])"
proof -
  have n: "\<not> isNull (m_tc atEnd)" by (simp add: atEnd_def)
  have f: "findBackward stringRe quotedDoc (m_tc atEnd) = Cursor 0 3"
    by (simp add: eval_defs atEnd_def quotedDoc_def stringRe_def)
  from decorateBatch_progress[OF n, of stringRe quotedDoc stringDecorate "\<lambda>i. 20"] f
  have "decorateBatch stringRe stringDecorate (\<lambda>i. 20) atEnd quotedDoc =
      ((atEnd\<lparr>m_tc := Cursor 0 3, m_timerDecorate := True\<rparr>,
        stringDecorate quotedDoc (Cursor 0 3)), [Cursor 0 3])"
    by simp
  then show ?thesis using n f
    by (simp add: atEnd_def quotedDoc_def eval_defs)
qed

text \<open>
  Claim C5. A pass visits the matches in strictly decreasing order of their start positions
  and never comes back to a start position; it is over after finitely many timeouts (at
  most one more than the matches it visited, and no more than the matches when no timeout
  was pending at its start; the matches are no more than the characters of the text); it
  ends with a null cursor and an inactive timer, exactly when the backward search from the
  last match visited finds nothing. The cursors visited are the matches of the pattern in
  the text, each found by the backward search from the start of the one before. The clocks
  of the batches are arbitrary, so the statement covers every time budget. The virtual
  \<^verbatim>\<open>decorate\<close> is any method that leaves the text of the document as it is.
\<close>

theorem pass_terminates:
  assumes "keepsText h" and "pass re h els dec doc = ((dec', doc'), n, tr)"
  shows "tr = allMatches re (plainText doc) (length (plainText doc)) \<and>
     sorted_wrt (\<lambda>c c'. selectionStart c' < selectionStart c) tr \<and>
     distinct (map selectionStart tr) \<and>
     n \<le> Suc (length tr) \<and> (\<not> m_timerDecorate dec \<longrightarrow> n \<le> length tr) \<and>
     length tr \<le> length (plainText doc) \<and>
     m_tc dec' = NullCursor \<and> \<not> m_timerDecorate dec' \<and>
     findBackward re doc' (last (endCursor doc # tr)) = NullCursor \<and>
     (\<forall>a p. Cursor a p \<in> set tr \<longleftrightarrow>
        a < length (plainText doc) \<and> (\<exists>len. matchAt re (plainText doc) a = Some len \<and> p = a + len))"
proof -
  note r = pass_result[OF assms]
  let ?t = "plainText doc"
  have s: "sorted_wrt (\<lambda>c c'. selectionStart c' < selectionStart c) tr"
    unfolding r(1) by (rule allMatches_sorted)
  have d: "distinct (map selectionStart tr)"
    using s by (rule sorted_wrt_distinct_starts)
  have l: "length tr \<le> length ?t" unfolding r(1) by (rule allMatches_length)
  have text': "plainText doc' = ?t" using r(2) keepsText_foldl[OF assms(1)] by simp
  have f: "findBackward re doc' (last (endCursor doc # tr)) = NullCursor"
  proof (cases "tr = []")
    case True
    then have "findBelow re ?t (length ?t) = NullCursor"
      using r(1) by (cases "findBelow re ?t (length ?t)") (simp_all add: allMatches_Cursor)
    then show ?thesis using True text' by (simp add: findBackward_eq endCursor_def)
  next
    case False
    then have "findBelow re ?t (selectionStart (last tr)) = NullCursor"
      using allMatches_last[of re ?t "length ?t"] r(1) by simp
    then show ?thesis using False text' by (simp add: findBackward_eq)
  qed
  have m: "\<forall>a p. Cursor a p \<in> set tr \<longleftrightarrow>
        a < length ?t \<and> (\<exists>len. matchAt re ?t a = Some len \<and> p = a + len)"
    unfolding r(1) by (simp add: allMatches_set)
  show ?thesis using r(1,3,4,6) r(5) s d l f m by blast
qed

definition twoQuotes :: document where
  "twoQuotes = setPlainText [SQ, CHR ''a'', SQ, CHR '' '', SQ, CHR ''b'', SQ]"

definition idle :: decorator where
  "idle = \<lparr>m_tc = NullCursor, m_timerDecorate = False\<rparr>"

theorem pass_terminates_witness:
  "keepsText stringDecorate \<and>
   pass stringRe stringDecorate (\<lambda>j i. 20) idle twoQuotes =
     ((idle, twoQuotes\<lparr>charFormats := replicate 7 m_stringFormat\<rparr>), 3,
      [Cursor 4 7, Cursor 2 5, Cursor 0 3]) \<and>
   [Cursor 4 7, Cursor 2 5, Cursor 0 3] =
     allMatches stringRe (plainText twoQuotes) (length (plainText twoQuotes)) \<and>
   distinct (map selectionStart [Cursor 4 7, Cursor 2 5, Cursor 0 3]) \<and>
   (3::nat) \<le> length [Cursor 4 7, Cursor 2 5, Cursor 0 3] \<and>
   findBackward stringRe (twoQuotes\<lparr>charFormats := replicate 7 m_stringFormat\<rparr>)
     (last (endCursor twoQuotes # [Cursor 4 7, Cursor 2 5, Cursor 0 3])) = NullCursor"
proof -
  have p: "pass stringRe stringDecorate (\<lambda>j i. 20) idle twoQuotes =
     ((idle, twoQuotes\<lparr>charFormats := replicate 7 m_stringFormat\<rparr>), 3,
      [Cursor 4 7, Cursor 2 5, Cursor 0 3])"
    by (simp add: eval_defs idle_def twoQuotes_def stringRe_def numeral_eq_Suc)
  have i: "\<not> m_timerDecorate idle" by (simp add: idle_def)
  from pass_terminates[OF keepsText_stringDecorate p] keepsText_stringDecorate p i
  show ?thesis by blast
qed

lemma decorateBatch_notfound:
  "\<not> isNull (m_tc dec) \<Longrightarrow> findBackward re doc (m_tc dec) = NullCursor \<Longrightarrow>
   decorateBatch re h el dec doc = ((dec\<lparr>m_tc := NullCursor\<rparr>, doc), [])"
  using batchLoop_Null[of re doc "m_tc dec" h el 0] by (simp add: decorateBatch_def)

lemma decorateBatch_found:
  assumes "\<not> isNull (m_tc dec)" and f: "findBackward re doc (m_tc dec) = Cursor a p"
  shows "\<exists>dec' doc' tr'.
     decorateBatch re h el dec doc = ((dec', doc'), Cursor a p # tr') \<and>
     doc' = foldl h (h doc (Cursor a p)) tr'"
proof -
  obtain dec' doc' tr where db: "decorateBatch re h el dec doc = ((dec', doc'), tr)"
    by (rule result_cases)
  from db obtain tc' st where
    bl: "batchLoop re h el 0 doc (m_tc dec) = (tc', st, doc', tr)"
  proof (cases rule: decorateBatch_cases)
    case idle
    then show ?thesis using assms by simp
  next
    case (run tc' st)
    then show ?thesis using that by simp
  qed
  from bl have "\<exists>tr'. tr = Cursor a p # tr' \<and> doc' = foldl h (h doc (Cursor a p)) tr'"
  proof (cases rule: batchLoop_cases)
    case null
    then show ?thesis using f by simp
  next
    case (stop b q)
    then show ?thesis using f by simp
  next
    case (go b q tr2)
    then show ?thesis using f batchLoop_fold[OF go(3)] by simp
  qed
  then show ?thesis using db by auto
qed

lemma decorateBatch_cursor:
  assumes "decorateBatch re h el dec doc = ((dec', doc'), tr)" and "\<not> isNull (m_tc dec)"
  shows "(m_tc dec' = NullCursor \<or> (tr \<noteq> [] \<and> m_tc dec' = last tr)) \<and>
     (m_timerDecorate dec \<longrightarrow> m_timerDecorate dec')"
  using assms(1)
proof (cases rule: decorateBatch_cases)
  case idle
  then show ?thesis using assms(2) by simp
next
  case (run tc' st)
  from batchLoop_trace[OF run(2)] run(3) show ?thesis by (cases st) simp_all
qed

text \<open>
  Claim C7. \<^verbatim>\<open>decorate(document)\<close> puts the cursor at the end of the document and runs
  one batch before it returns: the backward search from the end happens at once, and a
  match it finds is styled at once. The cursor the decorator held before plays no part in
  the result, so the pass it belonged to is over. A timeout that was pending stays pending;
  when it is delivered it runs the batch on the cursor of the new pass, which is null or
  the last match the new pass visited. A decorator has one cursor and one timer, so one
  pass at most is under way.
\<close>

theorem decorate_restarts:
  "decorate re h el dec doc = decorateBatch re h el (dec\<lparr>m_tc := endCursor doc\<rparr>) doc \<and>
   decorate re h el (dec\<lparr>m_tc := tc\<rparr>) doc = decorate re h el dec doc \<and>
   (findBackward re doc (endCursor doc) = NullCursor \<longrightarrow>
      decorate re h el dec doc = ((dec\<lparr>m_tc := NullCursor\<rparr>, doc), [])) \<and>
   (\<forall>a p. findBackward re doc (endCursor doc) = Cursor a p \<longrightarrow>
      (\<exists>dec' doc' tr'. decorate re h el dec doc = ((dec', doc'), Cursor a p # tr') \<and>
         doc' = foldl h (h doc (Cursor a p)) tr')) \<and>
   (\<forall>dec' doc' tr. decorate re h el dec doc = ((dec', doc'), tr) \<longrightarrow>
      (m_tc dec' = NullCursor \<or> (tr \<noteq> [] \<and> m_tc dec' = last tr)) \<and>
      (m_timerDecorate dec \<longrightarrow>
         m_timerDecorate dec' \<and>
         timeout re h el2 dec' doc' =
           decorateBatch re h el2 (dec'\<lparr>m_timerDecorate := False\<rparr>) doc'))"
proof (intro conjI allI impI)
  show "decorate re h el dec doc = decorateBatch re h el (dec\<lparr>m_tc := endCursor doc\<rparr>) doc"
    by (simp add: decorate_def)
  show "decorate re h el (dec\<lparr>m_tc := tc\<rparr>) doc = decorate re h el dec doc"
    by (simp add: decorate_def)
next
  let ?d = "dec\<lparr>m_tc := endCursor doc\<rparr>"
  have nn: "\<not> isNull (m_tc ?d)" by (simp add: endCursor_def)
  assume "findBackward re doc (endCursor doc) = NullCursor"
  then have "findBackward re doc (m_tc ?d) = NullCursor" by simp
  from decorateBatch_notfound[OF nn this]
  show "decorate re h el dec doc = ((dec\<lparr>m_tc := NullCursor\<rparr>, doc), [])"
    by (simp add: decorate_def)
next
  fix a p
  let ?d = "dec\<lparr>m_tc := endCursor doc\<rparr>"
  have nn: "\<not> isNull (m_tc ?d)" by (simp add: endCursor_def)
  assume "findBackward re doc (endCursor doc) = Cursor a p"
  then have "findBackward re doc (m_tc ?d) = Cursor a p" by simp
  from decorateBatch_found[OF nn this]
  show "\<exists>dec' doc' tr'. decorate re h el dec doc = ((dec', doc'), Cursor a p # tr') \<and>
      doc' = foldl h (h doc (Cursor a p)) tr'"
    by (simp add: decorate_def)
next
  fix dec' doc' tr
  let ?d = "dec\<lparr>m_tc := endCursor doc\<rparr>"
  have nn: "\<not> isNull (m_tc ?d)" by (simp add: endCursor_def)
  assume "decorate re h el dec doc = ((dec', doc'), tr)"
  then have db: "decorateBatch re h el ?d doc = ((dec', doc'), tr)" by (simp add: decorate_def)
  note c = decorateBatch_cursor[OF db nn]
  show "m_tc dec' = NullCursor \<or> (tr \<noteq> [] \<and> m_tc dec' = last tr)" using c by blast
  assume "m_timerDecorate dec"
  then show "m_timerDecorate dec'" using c by simp
  then show "timeout re h el2 dec' doc' =
      decorateBatch re h el2 (dec'\<lparr>m_timerDecorate := False\<rparr>) doc'"
    by (simp add: timeout_def)
qed

definition midPass :: decorator where
  "midPass = \<lparr>m_tc = Cursor 1 2, m_timerDecorate = True\<rparr>"

theorem decorate_restarts_witness:
  "findBackward stringRe quotedDoc (endCursor quotedDoc) = Cursor 0 3 \<and>
   decorate stringRe stringDecorate (\<lambda>i. 0) midPass quotedDoc =
     ((\<lparr>m_tc = NullCursor, m_timerDecorate = True\<rparr>,
       quotedDoc\<lparr>charFormats := [m_stringFormat, m_stringFormat, m_stringFormat, emptyFormat]\<rparr>),
      [Cursor 0 3]) \<and>
   m_timerDecorate midPass \<and>
   timeout stringRe stringDecorate (\<lambda>i. 0) \<lparr>m_tc = NullCursor, m_timerDecorate = True\<rparr>
       (quotedDoc\<lparr>charFormats := [m_stringFormat, m_stringFormat, m_stringFormat, emptyFormat]\<rparr>) =
     ((\<lparr>m_tc = NullCursor, m_timerDecorate = False\<rparr>,
       quotedDoc\<lparr>charFormats := [m_stringFormat, m_stringFormat, m_stringFormat, emptyFormat]\<rparr>),
      [])"
proof -
  let ?styled = "quotedDoc\<lparr>charFormats := [m_stringFormat, m_stringFormat, m_stringFormat, emptyFormat]\<rparr>"
  have f: "findBackward stringRe quotedDoc (endCursor quotedDoc) = Cursor 0 3"
    by (simp add: eval_defs quotedDoc_def stringRe_def)
  have d: "decorate stringRe stringDecorate (\<lambda>i. 0) midPass quotedDoc =
     ((\<lparr>m_tc = NullCursor, m_timerDecorate = True\<rparr>, ?styled), [Cursor 0 3])"
    by (simp add: eval_defs midPass_def quotedDoc_def stringRe_def)
  have m: "m_timerDecorate midPass" by (simp add: midPass_def)
  have b: "decorateBatch stringRe stringDecorate (\<lambda>i. 0)
      (\<lparr>m_tc = NullCursor, m_timerDecorate = True\<rparr>\<lparr>m_timerDecorate := False\<rparr>) ?styled =
     ((\<lparr>m_tc = NullCursor, m_timerDecorate = False\<rparr>, ?styled), [])"
    by (simp add: decorateBatch_def)
  from decorate_restarts[of stringRe stringDecorate "\<lambda>i. 0" midPass quotedDoc "Cursor 1 2" "\<lambda>i. 0"]
  have "timeout stringRe stringDecorate (\<lambda>i. 0) \<lparr>m_tc = NullCursor, m_timerDecorate = True\<rparr> ?styled =
     decorateBatch stringRe stringDecorate (\<lambda>i. 0)
       (\<lparr>m_tc = NullCursor, m_timerDecorate = True\<rparr>\<lparr>m_timerDecorate := False\<rparr>) ?styled"
    using d m by blast
  then show ?thesis using f d m b by simp
qed

lemma setRange_length [simp]: "length (setRange lo hi f xs) = length xs"
  by (induction xs arbitrary: lo hi) simp_all

lemma setRange_nth:
  "i < length xs \<Longrightarrow> setRange lo hi f xs ! i = (if lo \<le> i \<and> i < hi then f else xs ! i)"
proof (induction xs arbitrary: lo hi i)
  case Nil
  then show ?case by simp
next
  case (Cons x xs)
  show ?case
  proof (cases i)
    case 0
    then show ?thesis by simp
  next
    case (Suc j)
    then have j: "j < length xs" using Cons.prems by simp
    show ?thesis
    proof (cases "lo = 0")
      case True
      then show ?thesis using Suc Cons.IH[OF j, of 0 "hi - 1"] by auto
    next
      case False
      then show ?thesis using Suc Cons.IH[OF j, of "lo - 1" "hi - 1"] by auto
    qed
  qed
qed

text \<open>
  The format a match gives to position \<open>i\<close> under a hook of the common shape, if any, and
  the format the last of a list of matches that covers \<open>i\<close> gives to it.
\<close>

definition stamp :: "(string \<Rightarrow> charFormat option) \<Rightarrow> string \<Rightarrow> cursor \<Rightarrow> nat \<Rightarrow> charFormat option" where
  "stamp classify t tc i =
     (case classify (take (selectionEnd tc - selectionStart tc) (drop (selectionStart tc) t)) of
        None \<Rightarrow> None
      | Some f \<Rightarrow> (if selectionStart tc \<le> i \<and> i < selectionEnd tc then Some f else None))"

fun lastStamp :: "(string \<Rightarrow> charFormat option) \<Rightarrow> string \<Rightarrow> cursor list \<Rightarrow> nat \<Rightarrow> charFormat option" where
  "lastStamp classify t [] i = None"
| "lastStamp classify t (tc # tr) i =
     (case lastStamp classify t tr i of
        Some f \<Rightarrow> Some f
      | None \<Rightarrow> stamp classify t tc i)"

lemma styleHook_text [simp]: "plainText (styleHook classify d tc) = plainText d"
  by (simp add: styleHook_def setCharFormat_def split: option.splits)

lemma styleHook_length [simp]:
  "length (charFormats (styleHook classify d tc)) = length (charFormats d)"
  by (simp add: styleHook_def setCharFormat_def split: option.splits)

lemma styleHook_nth:
  "i < length (charFormats d) \<Longrightarrow>
   charFormats (styleHook classify d tc) ! i =
     (case stamp classify (plainText d) tc i of None \<Rightarrow> charFormats d ! i | Some f \<Rightarrow> f)"
  by (auto simp: styleHook_def setCharFormat_def stamp_def selectedText_def setRange_nth
      split: option.splits)

lemma foldl_styleHook_text [simp]: "plainText (foldl (styleHook classify) d tr) = plainText d"
  by (induction tr arbitrary: d) simp_all

lemma foldl_styleHook_length [simp]:
  "length (charFormats (foldl (styleHook classify) d tr)) = length (charFormats d)"
  by (induction tr arbitrary: d) simp_all

lemma foldl_styleHook_nth:
  "i < length (charFormats d) \<Longrightarrow>
   charFormats (foldl (styleHook classify) d tr) ! i =
     (case lastStamp classify (plainText d) tr i of None \<Rightarrow> charFormats d ! i | Some f \<Rightarrow> f)"
proof (induction tr arbitrary: d)
  case Nil
  show ?case by simp
next
  case (Cons tc tr)
  have "i < length (charFormats (styleHook classify d tc))" using Cons.prems by simp
  from Cons.IH[OF this] show ?case
    using styleHook_nth[OF Cons.prems, of classify tc] by (simp split: option.splits)
qed

lemma foldl_styleHook_idem:
  "foldl (styleHook classify) (foldl (styleHook classify) d tr) tr =
   foldl (styleHook classify) d tr"
proof (rule document.equality)
  let ?d1 = "foldl (styleHook classify) d tr"
  show "plainText (foldl (styleHook classify) ?d1 tr) = plainText ?d1" by simp
  show "charFormats (foldl (styleHook classify) ?d1 tr) = charFormats ?d1"
  proof (rule nth_equalityI)
    show "length (charFormats (foldl (styleHook classify) ?d1 tr)) = length (charFormats ?d1)"
      by simp
    fix i assume "i < length (charFormats (foldl (styleHook classify) ?d1 tr))"
    then have i: "i < length (charFormats d)" by simp
    then have i1: "i < length (charFormats ?d1)" by simp
    show "charFormats (foldl (styleHook classify) ?d1 tr) ! i = charFormats ?d1 ! i"
      using foldl_styleHook_nth[OF i1, of classify tr] foldl_styleHook_nth[OF i, of classify tr]
      by (simp split: option.splits)
  qed
  show "document.more (foldl (styleHook classify) ?d1 tr) = document.more ?d1" by simp
qed

text \<open>
  Claim C6. For every pattern and every hook of the common shape (a format, or none, decided
  from the matched text), a second complete pass over the document a first complete pass
  left gives the same document: the same text and the same format at every position. It
  visits the same matches. The clocks of the two passes are arbitrary and may differ.
\<close>

theorem pass_idempotent:
  assumes "pass re (styleHook classify) els dec doc = ((dec1, doc1), n1, tr1)"
    and "pass re (styleHook classify) els' dec1 doc1 = ((dec2, doc2), n2, tr2)"
  shows "doc2 = doc1 \<and> tr2 = tr1 \<and> dec2 = dec1"
proof -
  note k = keepsText_styleHook[of classify]
  note r1 = pass_result[OF k assms(1)]
  note r2 = pass_result[OF k assms(2)]
  have t: "plainText doc1 = plainText doc" using r1(2) by simp
  have tr: "tr2 = tr1" using r1(1) r2(1) t by simp
  have "doc2 = doc1" using r2(2) r1(2) tr foldl_styleHook_idem by simp
  moreover have "dec2 = dec1" using r1(7) r2(7) by simp
  ultimately show ?thesis using tr by simp
qed

theorem pass_idempotent_witness:
  "pass stringRe (styleHook (\<lambda>text. Some m_stringFormat)) (\<lambda>j i. 20) idle twoQuotes =
     ((idle, twoQuotes\<lparr>charFormats := replicate 7 m_stringFormat\<rparr>), 3,
      [Cursor 4 7, Cursor 2 5, Cursor 0 3]) \<and>
   pass stringRe (styleHook (\<lambda>text. Some m_stringFormat)) (\<lambda>j i. 0) idle
       (twoQuotes\<lparr>charFormats := replicate 7 m_stringFormat\<rparr>) =
     ((idle, twoQuotes\<lparr>charFormats := replicate 7 m_stringFormat\<rparr>), 0,
      [Cursor 4 7, Cursor 2 5, Cursor 0 3])"
proof -
  have p1: "pass stringRe (styleHook (\<lambda>text. Some m_stringFormat)) (\<lambda>j i. 20) idle twoQuotes =
     ((idle, twoQuotes\<lparr>charFormats := replicate 7 m_stringFormat\<rparr>), 3,
      [Cursor 4 7, Cursor 2 5, Cursor 0 3])"
    by (simp add: eval_defs styleHook_def idle_def twoQuotes_def stringRe_def numeral_eq_Suc)
  have p2: "pass stringRe (styleHook (\<lambda>text. Some m_stringFormat)) (\<lambda>j i. 0) idle
       (twoQuotes\<lparr>charFormats := replicate 7 m_stringFormat\<rparr>) =
     ((idle, twoQuotes\<lparr>charFormats := replicate 7 m_stringFormat\<rparr>), 0,
      [Cursor 4 7, Cursor 2 5, Cursor 0 3])"
    by (simp add: eval_defs styleHook_def idle_def twoQuotes_def stringRe_def numeral_eq_Suc)
  from pass_idempotent[OF p1 p2] p1 p2 show ?thesis by simp
qed

lemma pass_cases:
  obtains dec' doc' n tr where "x = ((dec', doc'), n, tr)"
  by (cases x) auto

lemma pass_complete:
  assumes "keepsText h"
  shows "fst (pass re h els dec doc) =
      (\<lparr>m_tc = NullCursor, m_timerDecorate = False\<rparr>,
       foldl h doc (allMatches re (plainText doc) (length (plainText doc))))"
    and "snd (snd (pass re h els dec doc)) =
      allMatches re (plainText doc) (length (plainText doc))"
proof -
  obtain dec' doc' n tr where p: "pass re h els dec doc = ((dec', doc'), n, tr)"
    by (rule pass_cases)
  note r = pass_result[OF assms p]
  show "fst (pass re h els dec doc) =
      (\<lparr>m_tc = NullCursor, m_timerDecorate = False\<rparr>,
       foldl h doc (allMatches re (plainText doc) (length (plainText doc))))"
    using p r(1,2,7) by simp
  show "snd (snd (pass re h els dec doc)) =
      allMatches re (plainText doc) (length (plainText doc))"
    using p r(1) by simp
qed

text \<open>The decision of \<^verbatim>\<open>LogDecorator::decorate\<close>, as a function of the selected text.\<close>

definition logClassify :: "qfont \<Rightarrow> string \<Rightarrow> charFormat option" where
  "logClassify fnt text =
     (if prefix m_labelNote text then Some (m_noteLogLevelFormat fnt)
      else if prefix m_labelError text then Some (m_errorLogLevelFormat fnt)
      else if prefix m_labelWarning text then Some (m_warningLogLevelFormat fnt)
      else if prefix m_labelDebug text then Some (m_debugLogLevelFormat fnt)
      else if prefix m_labelTrace text then Some (m_traceLogLevelFormat fnt)
      else None)"

lemma logDecorate_styleHook: "logDecorate fnt = styleHook (logClassify fnt)"
  by (intro ext) (simp add: logDecorate_def styleHook_def logClassify_def Let_def)


text \<open>The labels and their formats, in the order in which the hook tries them.\<close>

definition labelFormats :: "qfont \<Rightarrow> (string \<times> charFormat) list" where
  "labelFormats fnt =
     [(logLevelLabel LogNote, m_noteLogLevelFormat fnt),
      (logLevelLabel LogError, m_errorLogLevelFormat fnt),
      (logLevelLabel LogWarning, m_warningLogLevelFormat fnt),
      (logLevelLabel LogDebug, m_debugLogLevelFormat fnt),
      (logLevelLabel LogTrace, m_traceLogLevelFormat fnt)]"

lemmas label_defs = m_labelNote_def m_labelError_def m_labelWarning_def m_labelDebug_def
  m_labelTrace_def

lemmas format_defs = m_noteLogLevelFormat_def m_errorLogLevelFormat_def
  m_warningLogLevelFormat_def m_debugLogLevelFormat_def m_traceLogLevelFormat_def
  normalFormat_def m_stringFormat_def emptyFormat_def monospace_def

text \<open>
  Claim C3. The hook of the \<^verbatim>\<open>LogDecorator\<close> gives the selection the format of the first
  of the labels Note, Error, Warning, Debug, Trace (in this order) that is a prefix of the
  matched text, and leaves the document as it is when none is. For every clock and every
  earlier state of the decorator, a complete pass over the document \<open>Error: failed\<close> (one
  line) visits the one match \<open>Error: \<close> and gives its seven characters the error format
  (bold, red on white) and nothing else; a complete pass over \<open>Unknown: hi\<close> visits the
  match \<open>Unknown: \<close> and leaves every format as it was.
\<close>

theorem logDecorate_first_label:
  "logDecorate fnt doc tc =
     (case List.find (\<lambda>(label, f). prefix label (selectedText doc tc)) (labelFormats fnt) of
        None \<Rightarrow> doc
      | Some (label, f) \<Rightarrow> setCharFormat f doc tc) \<and>
   pass logRe (logDecorate monospace) els dec (setPlainText ''Error: failed\<newline>'') =
     ((\<lparr>m_tc = NullCursor, m_timerDecorate = False\<rparr>,
       \<lparr>plainText = ''Error: failed\<newline>'',
        charFormats = replicate 7 (m_errorLogLevelFormat monospace) @ replicate 7 emptyFormat\<rparr>),
      fst (snd (pass logRe (logDecorate monospace) els dec (setPlainText ''Error: failed\<newline>''))),
      [Cursor 0 7]) \<and>
   foreground (m_errorLogLevelFormat monospace) = Some Red \<and>
   pass logRe (logDecorate monospace) els' dec' (setPlainText ''Unknown: hi\<newline>'') =
     ((\<lparr>m_tc = NullCursor, m_timerDecorate = False\<rparr>, setPlainText ''Unknown: hi\<newline>''),
      fst (snd (pass logRe (logDecorate monospace) els' dec' (setPlainText ''Unknown: hi\<newline>''))),
      [Cursor 0 9])"
proof (intro conjI)
  show "logDecorate fnt doc tc =
     (case List.find (\<lambda>(label, f). prefix label (selectedText doc tc)) (labelFormats fnt) of
        None \<Rightarrow> doc
      | Some (label, f) \<Rightarrow> setCharFormat f doc tc)"
    by (simp add: logDecorate_def labelFormats_def label_defs Let_def)
next
  let ?doc = "setPlainText ''Error: failed\<newline>''"
  have a: "allMatches logRe (plainText ?doc) (length (plainText ?doc)) = [Cursor 0 7]"
    by (simp add: allMatches.simps eval_defs logRe_def)
  have f: "foldl (logDecorate monospace) ?doc [Cursor 0 7] =
      \<lparr>plainText = ''Error: failed\<newline>'',
        charFormats = replicate 7 (m_errorLogLevelFormat monospace) @ replicate 7 emptyFormat\<rparr>"
    by (simp add: logDecorate_def label_defs eval_defs numeral_eq_Suc)
  note c = pass_complete[OF keepsText_logDecorate, of logRe monospace els dec ?doc, unfolded a f]
  show "pass logRe (logDecorate monospace) els dec ?doc =
     ((\<lparr>m_tc = NullCursor, m_timerDecorate = False\<rparr>,
       \<lparr>plainText = ''Error: failed\<newline>'',
        charFormats = replicate 7 (m_errorLogLevelFormat monospace) @ replicate 7 emptyFormat\<rparr>),
      fst (snd (pass logRe (logDecorate monospace) els dec ?doc)),
      [Cursor 0 7])"
    using c by (simp add: prod_eq_iff)
next
  show "foreground (m_errorLogLevelFormat monospace) = Some Red"
    by (simp add: format_defs)
next
  let ?doc = "setPlainText ''Unknown: hi\<newline>''"
  have a: "allMatches logRe (plainText ?doc) (length (plainText ?doc)) = [Cursor 0 9]"
    by (simp add: allMatches.simps eval_defs logRe_def)
  have f: "foldl (logDecorate monospace) ?doc [Cursor 0 9] = ?doc"
    by (simp add: logDecorate_def label_defs eval_defs)
  note c = pass_complete[OF keepsText_logDecorate, of logRe monospace els' dec' ?doc, unfolded a f]
  show "pass logRe (logDecorate monospace) els' dec' ?doc =
     ((\<lparr>m_tc = NullCursor, m_timerDecorate = False\<rparr>, ?doc),
      fst (snd (pass logRe (logDecorate monospace) els' dec' ?doc)),
      [Cursor 0 9])"
    using c by (simp add: prod_eq_iff)
qed

lemma lmatch_logRe:
  "lmatch st logRe s = Some n \<longleftrightarrow>
     st \<and> n \<le> length s \<and> suffix '': '' (take n s) \<and>
     (\<forall>m. n < m \<and> m \<le> length s \<longrightarrow> \<not> suffix '': '' (take m s))"
proof -
  have mem: "x \<in> L st logRe \<longleftrightarrow> st \<and> suffix '': '' x" for x
    by (auto simp: L_logRe suffix_def)
  show ?thesis unfolding lmatch_Some_iff mem by blast
qed

lemma lmatch_logRe_None:
  "lmatch st logRe s = None \<longleftrightarrow> \<not> st \<or> (\<forall>m\<le>length s. \<not> suffix '': '' (take m s))"
proof -
  have mem: "x \<in> L st logRe \<longleftrightarrow> st \<and> suffix '': '' x" for x
    by (auto simp: L_logRe suffix_def)
  show ?thesis unfolding lmatch_None_iff mem by blast
qed



lemma in_L_lineRe: "x \<in> L st (lineRe lab) \<longleftrightarrow> (\<exists>w. x = LF # lab @ w \<and> LF \<notin> set w)"
  unfolding L_lineRe by blast

lemma lmatch_lineRe:
  "lmatch st (lineRe lab) s =
     (if prefix (LF # lab) s then
        Some (Suc (length lab) +
              length (takeWhile (\<lambda>c. c \<noteq> LF) (drop (Suc (length lab)) s)))
      else None)"
proof (cases "prefix (LF # lab) s")
  case False
  have "take m s \<notin> L st (lineRe lab)" for m
  proof
    assume "take m s \<in> L st (lineRe lab)"
    then obtain w where "take m s = LF # lab @ w" unfolding in_L_lineRe by blast
    then have "prefix (LF # lab) (take m s)" by simp
    then have "prefix (LF # lab) s" using take_is_prefix prefix_order.trans by blast
    then show False using False by simp
  qed
  then have "lmatch st (lineRe lab) s = None" unfolding lmatch_None_iff by blast
  then show ?thesis using False by simp
next
  case True
  then obtain r where s: "s = LF # lab @ r" by (auto simp: prefix_def)
  let ?w = "takeWhile (\<lambda>c. c \<noteq> LF) r"
  let ?n = "Suc (length lab) + length ?w"
  have r: "r = ?w @ dropWhile (\<lambda>c. c \<noteq> LF) r" by simp
  have tn: "take ?n s = LF # lab @ ?w"
  proof -
    have "take (length ?w) r = ?w" by (metis append_eq_conv_conj r)
    then show ?thesis unfolding s by simp
  qed
  have nf: "LF \<notin> set ?w" by (auto dest: set_takeWhileD)
  have "take m s \<notin> L st (lineRe lab)" if m: "?n < m" "m \<le> length s" for m
  proof
    assume "take m s \<in> L st (lineRe lab)"
    then obtain w where w: "take m s = LF # lab @ w" "LF \<notin> set w"
      unfolding in_L_lineRe by blast
    have "take m s = LF # lab @ take (m - Suc (length lab)) r"
      using m(1) unfolding s by (cases m) simp_all
    then have weq: "w = take (m - Suc (length lab)) r" using w(1) by simp
    have lw: "length ?w < m - Suc (length lab)" using m(1) by simp
    have "length ?w < length r" using m unfolding s by simp
    then have "r ! length ?w = LF"
      using nth_length_takeWhile[of "\<lambda>c. c \<noteq> LF" r] by simp
    moreover have "w ! length ?w = r ! length ?w" unfolding weq using lw by simp
    moreover have "length ?w < length w" unfolding weq using lw \<open>length ?w < length r\<close> by simp
    ultimately have "LF \<in> set w" by (metis nth_mem)
    then show False using w(2) by simp
  qed
  moreover have "take ?n s \<in> L st (lineRe lab)" unfolding in_L_lineRe tn using nf by blast
  moreover have "?n \<le> length s" unfolding s by (simp add: length_takeWhile_le)
  ultimately have "lmatch st (lineRe lab) s = Some ?n" unfolding lmatch_Some_iff by blast
  then show ?thesis using True unfolding s by simp
qed

lemma matchAt_logRe:
  "matchAt logRe t a = Some len \<longleftrightarrow>
     blockStart t a \<and> len \<le> length (blockTail t a) \<and>
     suffix '': '' (take len (blockTail t a)) \<and>
     (\<forall>m. len < m \<and> m \<le> length (blockTail t a) \<longrightarrow> \<not> suffix '': '' (take m (blockTail t a)))"
  unfolding matchAt_def lmatch_logRe ..

text \<open>
  The reading of a label header as the text up to the first colon and space: the text ends
  with a colon and a space and holds no colon followed by a space before that.
\<close>

definition endsAtFirst :: "string \<Rightarrow> bool" where
  "endsAtFirst s =
     (suffix '': '' s \<and> list_all (\<lambda>k. \<not> prefix '': '' (drop k s)) [0..<length s - 2])"

text \<open>
  Claim C2, as amended. The matches of the pattern of the \<^verbatim>\<open>LogDecorator\<close> that a pass
  visits are these: the match starts at the first position of a line and is the longest
  beginning of that line that ends with a colon and a space. So it reaches up to and
  including the last colon-and-space of the line, not the first, and a line without a
  colon followed by a space has no match.
\<close>

theorem logRe_spans:
  "Cursor a p \<in> set (snd (snd (pass logRe (logDecorate fnt) els dec doc))) \<longleftrightarrow>
     a < length (plainText doc) \<and> blockStart (plainText doc) a \<and> a \<le> p \<and>
     p - a \<le> length (blockTail (plainText doc) a) \<and>
     suffix '': '' (take (p - a) (blockTail (plainText doc) a)) \<and>
     (\<forall>m. p - a < m \<and> m \<le> length (blockTail (plainText doc) a) \<longrightarrow>
          \<not> suffix '': '' (take m (blockTail (plainText doc) a)))"
proof -
  let ?t = "plainText doc"
  have tr: "snd (snd (pass logRe (logDecorate fnt) els dec doc)) = allMatches logRe ?t (length ?t)"
    by (rule pass_complete(2)[OF keepsText_logDecorate])
  show ?thesis unfolding tr allMatches_set
  proof (intro iffI)
    assume "a < length ?t \<and> (\<exists>len. matchAt logRe ?t a = Some len \<and> p = a + len)"
    then obtain len where l: "a < length ?t" "matchAt logRe ?t a = Some len" "p = a + len"
      by blast
    have pa: "p - a = len" "a \<le> p" using l(3) by simp_all
    show "a < length ?t \<and> blockStart ?t a \<and> a \<le> p \<and>
      p - a \<le> length (blockTail ?t a) \<and> suffix '': '' (take (p - a) (blockTail ?t a)) \<and>
      (\<forall>m. p - a < m \<and> m \<le> length (blockTail ?t a) \<longrightarrow>
          \<not> suffix '': '' (take m (blockTail ?t a)))"
      unfolding pa(1) using l(1,2) pa(2) unfolding matchAt_logRe by blast
  next
    assume r: "a < length ?t \<and> blockStart ?t a \<and> a \<le> p \<and>
      p - a \<le> length (blockTail ?t a) \<and> suffix '': '' (take (p - a) (blockTail ?t a)) \<and>
      (\<forall>m. p - a < m \<and> m \<le> length (blockTail ?t a) \<longrightarrow>
          \<not> suffix '': '' (take m (blockTail ?t a)))"
    then have "matchAt logRe ?t a = Some (p - a)" unfolding matchAt_logRe by blast
    moreover have "p = a + (p - a)" using r by simp
    ultimately show "a < length ?t \<and> (\<exists>len. matchAt logRe ?t a = Some len \<and> p = a + len)"
      using r by blast
  qed
qed

definition twoColons :: document where
  "twoColons = setPlainText ''Error: a: b''"

theorem logRe_spans_witness:
  "Cursor 0 10 \<in> set (snd (snd (pass logRe (logDecorate monospace) (\<lambda>j i. 20) idle twoColons))) \<and>
   blockStart (plainText twoColons) 0 \<and>
   suffix '': '' (take (10 - 0) (blockTail (plainText twoColons) 0)) \<and>
   take (10 - 0) (blockTail (plainText twoColons) 0) = ''Error: a: '' \<and>
   \<not> suffix '': '' (take 11 (blockTail (plainText twoColons) 0))"
proof -
  have mem: "Cursor 0 10 \<in> set (snd (snd (pass logRe (logDecorate monospace) (\<lambda>j i. 20) idle twoColons)))"
    by (simp add: eval_defs logDecorate_def label_defs idle_def twoColons_def logRe_def)
  have len: "(10::nat) - 0 < 11 \<and> 11 \<le> length (blockTail (plainText twoColons) 0)"
    by (simp add: twoColons_def setPlainText_def blockTail_def)
  have tk: "take (10 - 0) (blockTail (plainText twoColons) 0) = ''Error: a: ''"
    by (simp add: twoColons_def setPlainText_def blockTail_def)
  note r = logRe_spans[THEN iffD1, OF mem]
  note r2 = r[THEN conjunct2]
  note r5 = r2[THEN conjunct2, THEN conjunct2, THEN conjunct2]
  have b: "blockStart (plainText twoColons) 0" by (rule r2[THEN conjunct1])
  have e: "suffix '': '' (take (10 - 0) (blockTail (plainText twoColons) 0))"
    by (rule r5[THEN conjunct1])
  have f: "\<not> suffix '': '' (take 11 (blockTail (plainText twoColons) 0))"
    by (rule r5[THEN conjunct2, rule_format, OF len])
  show ?thesis by (intro conjI mem b e tk f)
qed

text \<open>
  The claim as it was stated fails on the one-line document \<open>Error: a: b\<close>: the match the
  pass visits is \<open>Error: a: \<close>, which does not end at the first colon and space.
\<close>

theorem logRe_first_counterexample:
  "snd (snd (pass logRe (logDecorate monospace) (\<lambda>j i. 20) idle twoColons)) = [Cursor 0 10] \<and>
   selectedText twoColons (Cursor 0 10) = ''Error: a: '' \<and>
   \<not> endsAtFirst (selectedText twoColons (Cursor 0 10))"
  by (simp add: eval_defs logDecorate_def label_defs idle_def twoColons_def logRe_def
      endsAtFirst_def upt_rec)

























text \<open>
  The lines of a text: \<open>splitLines\<close> cuts it at the line feeds, \<open>joinLines\<close> puts a first
  line and the lines after it together again, a line feed in front of each later line.
\<close>

fun splitLines :: "string \<Rightarrow> string list" where
  "splitLines [] = [[]]"
| "splitLines (c # cs) =
     (if c = LF then [] # splitLines cs
      else (case splitLines cs of [] \<Rightarrow> [[c]] | l # ls \<Rightarrow> (c # l) # ls))"

definition tailLines :: "string list \<Rightarrow> string" where
  "tailLines ls = concat (map ((#) LF) ls)"

definition joinLines :: "string \<Rightarrow> string list \<Rightarrow> string" where
  "joinLines l0 ls = l0 @ tailLines ls"

text \<open>What the dialog does to a line after the first: the noise prefix goes, and the line
  is hidden when it starts with the label of a level that is not shown.\<close>

definition stripNoise :: "string \<Rightarrow> string" where
  "stripNoise l = (if prefix ''CopyQ '' l then drop 6 l else l)"

definition hidden :: "logDialog \<Rightarrow> string \<Rightarrow> bool" where
  "hidden dlg l =
     ((prefix (logLevelLabel LogError) l \<and> \<not> m_showError dlg) \<or>
      (prefix (logLevelLabel LogWarning) l \<and> \<not> m_showWarning dlg) \<or>
      (prefix (logLevelLabel LogNote) l \<and> \<not> m_showNote dlg) \<or>
      (prefix (logLevelLabel LogDebug) l \<and> \<not> m_showDebug dlg) \<or>
      (prefix (logLevelLabel LogTrace) l \<and> \<not> m_showTrace dlg))"

lemma splitLines_nonempty: "splitLines s \<noteq> []"
  by (induction s) (auto split: list.splits)

lemma splitLines_noLF: "list_all (\<lambda>l. LF \<notin> set l) (splitLines s)"
  by (induction s) (auto split: list.splits)

lemma tailLines_Cons [simp]: "tailLines (l # ls) = LF # l @ tailLines ls"
  by (simp add: tailLines_def)

lemma tailLines_Nil [simp]: "tailLines [] = []"
  by (simp add: tailLines_def)

lemma joinLines_splitLines: "joinLines (hd (splitLines s)) (tl (splitLines s)) = s"
proof (induction s)
  case Nil
  show ?case by (simp add: joinLines_def)
next
  case (Cons c cs)
  obtain l ls where sp: "splitLines cs = l # ls"
    using splitLines_nonempty[of cs] by (cases "splitLines cs") auto
  then have "l @ tailLines ls = cs" using Cons by (simp add: joinLines_def)
  then show ?case using sp by (simp add: joinLines_def)
qed

lemma tailLines_start: "tailLines ls = [] \<or> (\<exists>r. tailLines ls = LF # r)"
  by (cases ls) simp_all

lemma prefix_line:
  assumes "LF \<notin> set x"
  shows "prefix x (l @ tailLines ls) \<longleftrightarrow> prefix x l"
proof
  assume "prefix x l"
  then show "prefix x (l @ tailLines ls)" by (rule prefix_prefix)
next
  assume "prefix x (l @ tailLines ls)"
  then consider "prefix x l" | us where "x = l @ us" "prefix us (tailLines ls)" "us \<noteq> []"
    unfolding prefix_append by (cases "x = l") auto
  then show "prefix x l"
  proof cases
    case 1
    then show ?thesis .
  next
    case 2
    obtain u us' where u: "us = u # us'" using 2(3) by (cases us) auto
    then obtain r where "tailLines ls = u # r" using 2(2) by (auto simp: prefix_def)
    then have "u = LF" using tailLines_start[of ls] by auto
    then have "LF \<in> set x" using 2(1) u by simp
    then show ?thesis using assms by simp
  qed
qed

lemma takeWhile_line:
  "LF \<notin> set x \<Longrightarrow> takeWhile (\<lambda>c. c \<noteq> LF) (x @ tailLines ls) = x"
proof (induction x)
  case Nil
  show ?case using tailLines_start[of ls] by auto
next
  case (Cons c x)
  then show ?case by auto
qed

lemma replaceFrom_skip: "replaceFrom b a k s = replaceFrom b a 0 (drop k s)"
proof (induction s arbitrary: k)
  case Nil
  show ?case by simp
next
  case (Cons c cs)
  show ?case
  proof (cases k)
    case 0
    then show ?thesis by simp
  next
    case (Suc k')
    then show ?thesis using Cons[of k'] by simp
  qed
qed

lemma replaceFrom_noLF:
  "LF \<notin> set l \<Longrightarrow> replaceFrom (LF # b) a 0 (l @ r) = l @ replaceFrom (LF # b) a 0 r"
  by (induction l) auto

lemma stripNoise_noLF: "LF \<notin> set l \<Longrightarrow> LF \<notin> set (stripNoise l)"
  by (auto simp: stripNoise_def dest: in_set_dropD)

lemma replace_tailLines:
  "list_all (\<lambda>l. LF \<notin> set l) ls \<Longrightarrow>
   replaceFrom (LF # ''CopyQ '') [LF] 0 (tailLines ls) = tailLines (map stripNoise ls)"
proof (induction ls)
  case Nil
  show ?case by simp
next
  case (Cons l ls)
  let ?B = "LF # ''CopyQ ''"
  have l: "LF \<notin> set l" and ls: "list_all (\<lambda>l. LF \<notin> set l) ls" using Cons.prems by simp_all
  note ih = Cons.IH[OF ls]
  have p: "prefix ''CopyQ '' (l @ tailLines ls) \<longleftrightarrow> prefix ''CopyQ '' l"
    by (rule prefix_line) simp
  show ?case
  proof (cases "prefix ''CopyQ '' l")
    case True
    let ?k = "length ''CopyQ ''"
    have k: "?k = 6" by simp
    have len: "?k \<le> length l" using True by (auto simp: prefix_def)
    have "replaceFrom ?B [LF] 0 (tailLines (l # ls)) =
        LF # replaceFrom ?B [LF] ?k (l @ tailLines ls)"
      using True p by simp
    also have "\<dots> = LF # replaceFrom ?B [LF] 0 (drop ?k (l @ tailLines ls))"
      by (subst replaceFrom_skip) (rule refl)
    also have "\<dots> = LF # replaceFrom ?B [LF] 0 (drop ?k l @ tailLines ls)"
      using len by simp
    also have "\<dots> = LF # drop ?k l @ replaceFrom ?B [LF] 0 (tailLines ls)"
      using l by (subst replaceFrom_noLF) (auto dest: in_set_dropD)
    finally have fin: "replaceFrom ?B [LF] 0 (tailLines (l # ls)) =
        LF # drop 6 l @ tailLines (map stripNoise ls)"
      unfolding k ih .
    have sn: "stripNoise l = drop 6 l" using True by (simp add: stripNoise_def)
    have rhs: "tailLines (map stripNoise (l # ls)) = LF # drop 6 l @ tailLines (map stripNoise ls)"
      by (simp add: sn)
    show ?thesis unfolding rhs by (rule fin)
  next
    case False
    have "replaceFrom ?B [LF] 0 (tailLines (l # ls)) =
        LF # replaceFrom ?B [LF] 0 (l @ tailLines ls)"
      using False p by simp
    also have "\<dots> = LF # l @ replaceFrom ?B [LF] 0 (tailLines ls)"
      using l by (subst replaceFrom_noLF) auto
    finally have fin: "replaceFrom ?B [LF] 0 (tailLines (l # ls)) =
        LF # l @ tailLines (map stripNoise ls)"
      unfolding ih .
    have sn: "stripNoise l = l" using False by (simp add: stripNoise_def)
    have rhs: "tailLines (map stripNoise (l # ls)) = LF # l @ tailLines (map stripNoise ls)"
      by (simp add: sn)
    show ?thesis unfolding rhs by (rule fin)
  qed
qed

lemma replace_lines:
  assumes "LF \<notin> set l0" and "list_all (\<lambda>l. LF \<notin> set l) ls"
  shows "replace (LF # ''CopyQ '') [LF] (joinLines l0 ls) = joinLines l0 (map stripNoise ls)"
  using assms by (simp add: replace_def joinLines_def replaceFrom_noLF replace_tailLines)

lemma removeFrom_lineRe_st:
  "removeFrom (lineRe lab) st k s = removeFrom (lineRe lab) False k s"
proof -
  have e: "lmatch st (lineRe lab) x = lmatch False (lineRe lab) x" for x
    by (simp only: lmatch_lineRe)
  show ?thesis
  proof (cases s)
    case Nil
    show ?thesis unfolding Nil by simp
  next
    case (Cons c cs)
    show ?thesis
    proof (cases k)
      case 0
      show ?thesis unfolding Cons 0 removeFrom.simps e ..
    next
      case (Suc k')
      show ?thesis unfolding Cons Suc removeFrom.simps ..
    qed
  qed
qed

lemma removeFrom_skip:
  "removeFrom (lineRe lab) st k s = removeFrom (lineRe lab) False 0 (drop k s)"
proof (induction s arbitrary: k st)
  case Nil
  show ?case by simp
next
  case (Cons c cs)
  show ?case
  proof (cases k)
    case 0
    then show ?thesis using removeFrom_lineRe_st[of lab st 0 "c # cs"] by (simp del: removeFrom.simps)
  next
    case (Suc k')
    then show ?thesis using Cons[of False k'] by simp
  qed
qed

lemma removeFrom_noLF:
  "LF \<notin> set l \<Longrightarrow>
   removeFrom (lineRe lab) st 0 (l @ r) = l @ removeFrom (lineRe lab) False 0 r"
proof (induction l arbitrary: st)
  case Nil
  show ?case using removeFrom_lineRe_st[of lab st 0 r] by (simp del: removeFrom.simps)
next
  case (Cons c l)
  then have "lmatch st (lineRe lab) (c # l @ r) = None"
    by (simp add: lmatch_lineRe del: lmatch.simps)
  then show ?case using Cons by (simp del: lmatch.simps)
qed

lemma remove_tailLines:
  assumes lab: "LF \<notin> set lab"
  shows "list_all (\<lambda>l. LF \<notin> set l) ls \<Longrightarrow>
   removeFrom (lineRe lab) False 0 (tailLines ls) =
     tailLines (filter (\<lambda>l. \<not> prefix lab l) ls)"
proof (induction ls)
  case Nil
  show ?case by simp
next
  case (Cons l ls)
  let ?r = "lineRe lab"
  have l: "LF \<notin> set l" and ls: "list_all (\<lambda>l. LF \<notin> set l) ls" using Cons.prems by simp_all
  note ih = Cons.IH[OF ls]
  have p: "prefix (LF # lab) (LF # l @ tailLines ls) \<longleftrightarrow> prefix lab l"
    using prefix_line[OF lab, of l ls] by simp
  show ?case
  proof (cases "prefix lab l")
    case True
    then obtain x where x: "l = lab @ x" by (auto simp: prefix_def)
    have xf: "LF \<notin> set x" using l x by simp
    have tw: "takeWhile (\<lambda>c. c \<noteq> LF) (drop (Suc (length lab)) (LF # l @ tailLines ls)) = x"
      unfolding x using takeWhile_line[OF xf, of ls] by simp
    have m: "lmatch False ?r (LF # l @ tailLines ls) = Some (Suc (length l))"
      unfolding lmatch_lineRe tw using p True x by simp
    have "removeFrom ?r False 0 (tailLines (l # ls)) =
        removeFrom ?r False (length l) (l @ tailLines ls)"
      using m by (simp del: lmatch.simps)
    also have "\<dots> = removeFrom ?r False 0 (drop (length l) (l @ tailLines ls))"
      by (rule removeFrom_skip)
    also have "\<dots> = removeFrom ?r False 0 (tailLines ls)" by simp
    finally show ?thesis using ih True by simp
  next
    case False
    then have m: "lmatch False ?r (LF # l @ tailLines ls) = None"
      unfolding lmatch_lineRe using p by simp
    have "removeFrom ?r False 0 (tailLines (l # ls)) =
        LF # removeFrom ?r False 0 (l @ tailLines ls)"
      using m by (simp del: lmatch.simps)
    also have "\<dots> = LF # l @ removeFrom ?r False 0 (tailLines ls)"
      using removeFrom_noLF[OF l] by simp
    finally show ?thesis using ih False by simp
  qed
qed

lemma label_noLF: "LF \<notin> set (logLevelLabel level)"
  by (cases level) simp_all

lemma showLogLines_lines:
  assumes "LF \<notin> set l0" and "list_all (\<lambda>l. LF \<notin> set l) ls"
  shows "showLogLines (joinLines l0 ls) sh level =
     joinLines l0 (filter (\<lambda>l. \<not> (prefix (logLevelLabel level) l \<and> \<not> sh)) ls)"
proof (cases sh)
  case True
  then show ?thesis by (simp add: showLogLines_def)
next
  case False
  have "remove (lineRe (logLevelLabel level)) (joinLines l0 ls) =
      l0 @ removeFrom (lineRe (logLevelLabel level)) False 0 (tailLines ls)"
    unfolding remove_def joinLines_def by (rule removeFrom_noLF[OF assms(1)])
  then show ?thesis
    using False remove_tailLines[OF label_noLF assms(2)]
    by (simp add: showLogLines_def joinLines_def)
qed

lemma filter_noLF:
  "list_all (\<lambda>l. LF \<notin> set l) ls \<Longrightarrow> list_all (\<lambda>l. LF \<notin> set l) (filter P ls)"
  by (induction ls) simp_all

lemma logContent_joinLines:
  assumes l0: "LF \<notin> set l0" and ls: "list_all (\<lambda>l. LF \<notin> set l) ls"
  shows "logContent dlg (joinLines l0 ls) =
     joinLines l0 (filter (\<lambda>l. \<not> hidden dlg l) (map stripNoise ls))"
proof -
  let ?s0 = "map stripNoise ls"
  let ?s1 = "filter (\<lambda>l. \<not> (prefix (logLevelLabel LogError) l \<and> \<not> m_showError dlg)) ?s0"
  let ?s2 = "filter (\<lambda>l. \<not> (prefix (logLevelLabel LogWarning) l \<and> \<not> m_showWarning dlg)) ?s1"
  let ?s3 = "filter (\<lambda>l. \<not> (prefix (logLevelLabel LogNote) l \<and> \<not> m_showNote dlg)) ?s2"
  let ?s4 = "filter (\<lambda>l. \<not> (prefix (logLevelLabel LogDebug) l \<and> \<not> m_showDebug dlg)) ?s3"
  let ?s5 = "filter (\<lambda>l. \<not> (prefix (logLevelLabel LogTrace) l \<and> \<not> m_showTrace dlg)) ?s4"
  have n0: "list_all (\<lambda>l. LF \<notin> set l) ?s0"
    using ls by (induction ls) (simp_all add: stripNoise_noLF)
  note n1 = filter_noLF[OF n0, of "\<lambda>l. \<not> (prefix (logLevelLabel LogError) l \<and> \<not> m_showError dlg)"]
  note n2 = filter_noLF[OF n1, of "\<lambda>l. \<not> (prefix (logLevelLabel LogWarning) l \<and> \<not> m_showWarning dlg)"]
  note n3 = filter_noLF[OF n2, of "\<lambda>l. \<not> (prefix (logLevelLabel LogNote) l \<and> \<not> m_showNote dlg)"]
  note n4 = filter_noLF[OF n3, of "\<lambda>l. \<not> (prefix (logLevelLabel LogDebug) l \<and> \<not> m_showDebug dlg)"]
  have "logContent dlg (joinLines l0 ls) = joinLines l0 ?s5"
    unfolding logContent_def Let_def replace_lines[OF l0 ls]
      showLogLines_lines[OF l0 n0] showLogLines_lines[OF l0 n1] showLogLines_lines[OF l0 n2]
      showLogLines_lines[OF l0 n3] showLogLines_lines[OF l0 n4] ..
  also have "?s5 = filter (\<lambda>l. \<not> hidden dlg l) ?s0"
    unfolding filter_filter hidden_def by (rule filter_cong[OF refl]) blast
  finally show ?thesis .
qed

text \<open>
  Claim C10. The text the dialog shows is the text of the log file with these changes and no
  others: every line after the first loses one leading \<open>CopyQ \<close>, and every line after
  the first that then starts with the label of a level that is not shown is removed. The
  first line is never changed and never removed, whether it starts with \<open>CopyQ \<close> or with
  the label of a hidden level: both the replacement and the removal look for a line feed in
  front of what they match.
\<close>

theorem logContent_lines:
  "logContent dlg s =
     joinLines (hd (splitLines s))
       (filter (\<lambda>l. \<not> hidden dlg l) (map stripNoise (tl (splitLines s)))) \<and>
   s = joinLines (hd (splitLines s)) (tl (splitLines s)) \<and>
   prefix (hd (splitLines s)) (logContent dlg s) \<and>
   logContent (dlg\<lparr>m_showNote := False\<rparr>) (''CopyQ Note: a'' @ [LF] @ ''CopyQ Note: b'') =
     ''CopyQ Note: a''"
proof -
  obtain l0 ls where sp: "splitLines s = l0 # ls"
    using splitLines_nonempty[of s] by (cases "splitLines s") auto
  have nf: "LF \<notin> set l0" "list_all (\<lambda>l. LF \<notin> set l) ls"
    using splitLines_noLF[of s] sp by simp_all
  have j: "s = joinLines l0 ls" using joinLines_splitLines[of s] sp by simp
  have c: "logContent dlg s = joinLines l0 (filter (\<lambda>l. \<not> hidden dlg l) (map stripNoise ls))"
    using logContent_joinLines[OF nf, of dlg] j by simp
  have e: "logContent (dlg\<lparr>m_showNote := False\<rparr>) (''CopyQ Note: a'' @ [LF] @ ''CopyQ Note: b'') =
     ''CopyQ Note: a''"
  proof -
    have "logContent (dlg\<lparr>m_showNote := False\<rparr>) (joinLines ''CopyQ Note: a'' [''CopyQ Note: b'']) =
        joinLines ''CopyQ Note: a''
          (filter (\<lambda>l. \<not> hidden (dlg\<lparr>m_showNote := False\<rparr>) l) (map stripNoise [''CopyQ Note: b'']))"
      by (rule logContent_joinLines) simp_all
    then show ?thesis by (simp add: joinLines_def stripNoise_def hidden_def)
  qed
  show ?thesis using c j e unfolding sp by (simp add: joinLines_def)
qed

text \<open>
  A batch on a null cursor does nothing: no search, no styling, the timer untouched. This
  is the only validity check of \<^verbatim>\<open>decorateBatch\<close>.
\<close>

lemma decorateBatch_isNull:
  "isNull (m_tc dec) \<Longrightarrow> decorateBatch re h el dec doc = ((dec, doc), [])"
  by (simp add: decorateBatch_def)

text \<open>
  The end-to-end scenario of the specification: the log file holds the two lines
  \<open>CopyQ Error: failed 'x' here\<close> and \<open>CopyQ Note: ok\<close>, errors are shown and notes are not.
\<close>

definition scenarioRaw :: string where
  "scenarioRaw =
     ''CopyQ Error: failed '' @ [SQ] @ ''x'' @ [SQ] @ '' here'' @ [LF] @ ''CopyQ Note: ok'' @ [LF]"

definition scenarioText :: string where
  "scenarioText = ''CopyQ Error: failed '' @ [SQ] @ ''x'' @ [SQ] @ '' here'' @ [LF]"

definition scenarioDoc :: document where
  "scenarioDoc =
     \<lparr>plainText = scenarioText,
      charFormats =
        replicate 20 emptyFormat @ replicate 3 m_stringFormat @ replicate 6 emptyFormat\<rparr>"

definition scenarioInv :: "logDialog \<Rightarrow> bool" where
  "scenarioInv d =
     (textBrowserLog d = scenarioDoc \<and>
      m_tc (m_logDecorator d) \<in> {NullCursor, Cursor 0 13} \<and>
      m_tc (m_stringDecorator d) \<in> {NullCursor, Cursor 20 23})"

lemma scenario_content:
  "logContent (dlg\<lparr>m_showError := True, m_showNote := False\<rparr>) scenarioRaw = scenarioText"
proof -
  let ?l0 = "''CopyQ Error: failed '' @ [SQ] @ ''x'' @ [SQ] @ '' here''"
  let ?d = "dlg\<lparr>m_showError := True, m_showNote := False\<rparr>"
  have r: "scenarioRaw = joinLines ?l0 [''CopyQ Note: ok'', []]"
    by (simp add: scenarioRaw_def joinLines_def)
  have "logContent ?d (joinLines ?l0 [''CopyQ Note: ok'', []]) =
      joinLines ?l0 (filter (\<lambda>l. \<not> hidden ?d l) (map stripNoise [''CopyQ Note: ok'', []]))"
    by (rule logContent_joinLines) simp_all
  then show ?thesis unfolding r
    by (simp add: joinLines_def stripNoise_def hidden_def scenarioText_def)
qed

lemma scenario_find_log_end:
  "findBackward logRe (setPlainText scenarioText) (endCursor (setPlainText scenarioText)) =
     Cursor 0 13"
  by (simp add: eval_defs scenarioText_def logRe_def)

lemma scenario_find_log:
  "plainText doc = scenarioText \<Longrightarrow> findBackward logRe doc (Cursor 0 13) = NullCursor"
  by (simp add: findBackward_def)

lemma scenario_hook_log:
  "plainText doc = scenarioText \<Longrightarrow> logDecorate monospace doc (Cursor 0 13) = doc"
  by (simp add: logDecorate_def label_defs selectedText_def scenarioText_def)

lemma scenario_find_string_end:
  "plainText doc = scenarioText \<Longrightarrow>
   findBackward stringRe doc (Cursor (length scenarioText) (length scenarioText)) = Cursor 20 23"
  by (simp add: eval_defs scenarioText_def stringRe_def)

lemma scenario_find_string:
  "plainText doc = scenarioText \<Longrightarrow> findBackward stringRe doc (Cursor 20 23) = NullCursor"
  by (simp add: eval_defs scenarioText_def stringRe_def)

lemma scenario_hook_string:
  "stringDecorate (setPlainText scenarioText) (Cursor 20 23) = scenarioDoc"
  by (simp add: eval_defs scenarioText_def scenarioDoc_def numeral_eq_Suc)


lemma scenario_length: "length scenarioText = 29"
  by (simp add: scenarioText_def)

lemma scenarioDoc_text: "plainText scenarioDoc = scenarioText"
  by (simp add: scenarioDoc_def)

lemma scenario_decorate_log:
  "\<exists>ld tr. decorate logRe (logDecorate monospace) el dec (setPlainText scenarioText) =
             ((ld, setPlainText scenarioText), tr) \<and>
           m_tc ld \<in> {NullCursor, Cursor 0 13}"
proof -
  let ?D = "setPlainText scenarioText"
  have t: "plainText ?D = scenarioText" by (simp add: setPlainText_def)
  have f: "findBackward logRe ?D (endCursor ?D) = Cursor 0 13" by (rule scenario_find_log_end)
  have h: "logDecorate monospace ?D (Cursor 0 13) = ?D" by (rule scenario_hook_log [OF t])
  have n: "findBackward logRe ?D (Cursor 0 13) = NullCursor" by (rule scenario_find_log [OF t])
  have ne: "\<not> isNull (endCursor ?D)" by (simp add: endCursor_def)
  show ?thesis
    by (cases "el 0 < 20")
      (simp_all add: decorate_def decorateBatch_def batchLoop.simps ne f h n)
qed

lemma scenario_decorate_string:
  "\<exists>sd tr. decorate stringRe stringDecorate el dec (setPlainText scenarioText) =
             ((sd, scenarioDoc), tr) \<and>
           m_tc sd \<in> {NullCursor, Cursor 20 23}"
proof -
  let ?D = "setPlainText scenarioText"
  have t: "plainText ?D = scenarioText" by (simp add: setPlainText_def)
  have e: "endCursor ?D = Cursor (length scenarioText) (length scenarioText)"
    by (simp add: endCursor_def setPlainText_def)
  have f: "findBackward stringRe ?D (endCursor ?D) = Cursor 20 23"
    unfolding e by (rule scenario_find_string_end [OF t])
  have h: "stringDecorate ?D (Cursor 20 23) = scenarioDoc" by (rule scenario_hook_string)
  have n: "findBackward stringRe scenarioDoc (Cursor 20 23) = NullCursor"
    by (rule scenario_find_string [OF scenarioDoc_text])
  have ne: "\<not> isNull (endCursor ?D)" by (simp add: endCursor_def)
  show ?thesis
    by (cases "el 0 < 20")
      (simp_all add: decorate_def decorateBatch_def batchLoop.simps ne f h n)
qed

lemma scenarioInv_updateLog:
  "scenarioInv
     (updateLog scenarioRaw elLog elString (dlg\<lparr>m_showError := True, m_showNote := False\<rparr>))"
proof -
  let ?d = "dlg\<lparr>m_showError := True, m_showNote := False\<rparr>"
  obtain ld trL where
    l: "decorate logRe (logDecorate monospace) elLog (m_logDecorator dlg)
          (setPlainText scenarioText) = ((ld, setPlainText scenarioText), trL)"
    and lc: "m_tc ld \<in> {NullCursor, Cursor 0 13}"
    using scenario_decorate_log by blast
  obtain sd trS where
    s: "decorate stringRe stringDecorate elString (m_stringDecorator dlg)
          (setPlainText scenarioText) = ((sd, scenarioDoc), trS)"
    and sc: "m_tc sd \<in> {NullCursor, Cursor 20 23}"
    using scenario_decorate_string by blast
  have "updateLog scenarioRaw elLog elString ?d =
      ?d\<lparr>textBrowserLog := scenarioDoc, m_logDecorator := ld, m_stringDecorator := sd\<rparr>"
    unfolding updateLog_def scenario_content Let_def by (simp add: l s)
  then show ?thesis using lc sc by (simp add: scenarioInv_def)
qed

lemma scenario_timeout_log:
  assumes "m_tc dec \<in> {NullCursor, Cursor 0 13}"
  shows "\<exists>ld tr. timeout logRe (logDecorate monospace) el dec scenarioDoc =
                    ((ld, scenarioDoc), tr) \<and> m_tc ld \<in> {NullCursor, Cursor 0 13}"
proof -
  have n: "findBackward logRe scenarioDoc (Cursor 0 13) = NullCursor"
    by (rule scenario_find_log [OF scenarioDoc_text])
  from assms show ?thesis
    by (auto simp: timeout_def decorateBatch_def batchLoop.simps n)
qed

lemma scenario_timeout_string:
  assumes "m_tc dec \<in> {NullCursor, Cursor 20 23}"
  shows "\<exists>sd tr. timeout stringRe stringDecorate el dec scenarioDoc =
                    ((sd, scenarioDoc), tr) \<and> m_tc sd \<in> {NullCursor, Cursor 20 23}"
proof -
  have n: "findBackward stringRe scenarioDoc (Cursor 20 23) = NullCursor"
    by (rule scenario_find_string [OF scenarioDoc_text])
  from assms show ?thesis
    by (auto simp: timeout_def decorateBatch_def batchLoop.simps n)
qed

lemma scenarioInv_deliver: "scenarioInv d \<Longrightarrow> scenarioInv (deliver e d)"
proof (cases e)
  case (LogTimer el)
  assume i: "scenarioInv d"
  then have t: "textBrowserLog d = scenarioDoc"
    and c: "m_tc (m_logDecorator d) \<in> {NullCursor, Cursor 0 13}"
    and s: "m_tc (m_stringDecorator d) \<in> {NullCursor, Cursor 20 23}"
    unfolding scenarioInv_def by blast+
  obtain ld tr where
    r: "timeout logRe (logDecorate monospace) el (m_logDecorator d) scenarioDoc =
          ((ld, scenarioDoc), tr)"
    and lc: "m_tc ld \<in> {NullCursor, Cursor 0 13}"
    using scenario_timeout_log [OF c] by blast
  show ?thesis using lc s by (simp add: LogTimer t r scenarioInv_def)
next
  case (StringTimer el)
  assume i: "scenarioInv d"
  then have t: "textBrowserLog d = scenarioDoc"
    and c: "m_tc (m_logDecorator d) \<in> {NullCursor, Cursor 0 13}"
    and s: "m_tc (m_stringDecorator d) \<in> {NullCursor, Cursor 20 23}"
    unfolding scenarioInv_def by blast+
  obtain sd tr where
    r: "timeout stringRe stringDecorate el (m_stringDecorator d) scenarioDoc =
          ((sd, scenarioDoc), tr)"
    and sc: "m_tc sd \<in> {NullCursor, Cursor 20 23}"
    using scenario_timeout_string [OF s] by blast
  show ?thesis using c sc by (simp add: StringTimer t r scenarioInv_def)
qed

lemma scenarioInv_foldl:
  "scenarioInv d \<Longrightarrow> scenarioInv (foldl (\<lambda>d e. deliver e d) d evs)"
  by (induction evs arbitrary: d) (simp_all add: scenarioInv_deliver)

text \<open>
  Claim C1. For the raw log text \<open>CopyQ Error: failed 'x' here\<close>, line feed,
  \<open>CopyQ Note: ok\<close>, line feed, with errors shown and notes hidden, the refresh followed
  by any timeouts of the two decorators leaves the document with the text
  \<open>CopyQ Error: failed 'x' here\<close>, line feed: the first line keeps its \<open>CopyQ \<close> prefix,
  so the text is not \<open>Error: failed 'x' here\<close>, line feed. The 7 characters \<open>Error: \<close>
  at offsets 6 to 13 carry no style (the matched span \<open>CopyQ Error: \<close> starts with no
  label), and \<open>'x'\<close> at offsets 20 to 23 carries the string style.
\<close>

theorem updateLog_scenario:
  "textBrowserLog
     (foldl (\<lambda>d e. deliver e d)
        (updateLog scenarioRaw elLog elString (dlg\<lparr>m_showError := True, m_showNote := False\<rparr>))
        evs) = scenarioDoc \<and>
   plainText scenarioDoc \<noteq> ''Error: failed '' @ [SQ] @ ''x'' @ [SQ] @ '' here'' @ [LF] \<and>
   selectedText scenarioDoc (Cursor 6 13) = ''Error: '' \<and>
   take 7 (drop 6 (charFormats scenarioDoc)) = replicate 7 emptyFormat \<and>
   m_errorLogLevelFormat monospace \<noteq> emptyFormat \<and>
   selectedText scenarioDoc (Cursor 20 23) = [SQ] @ ''x'' @ [SQ] \<and>
   take 3 (drop 20 (charFormats scenarioDoc)) = replicate 3 m_stringFormat"
proof -
  have "scenarioInv
      (foldl (\<lambda>d e. deliver e d)
        (updateLog scenarioRaw elLog elString (dlg\<lparr>m_showError := True, m_showNote := False\<rparr>))
        evs)"
    by (rule scenarioInv_foldl [OF scenarioInv_updateLog])
  then have a: "textBrowserLog
     (foldl (\<lambda>d e. deliver e d)
        (updateLog scenarioRaw elLog elString (dlg\<lparr>m_showError := True, m_showNote := False\<rparr>))
        evs) = scenarioDoc"
    unfolding scenarioInv_def by blast
  have b: "plainText scenarioDoc \<noteq> ''Error: failed '' @ [SQ] @ ''x'' @ [SQ] @ '' here'' @ [LF]"
    by (simp add: scenarioDoc_def scenarioText_def)
  have c: "selectedText scenarioDoc (Cursor 6 13) = ''Error: ''"
    by (simp add: selectedText_def scenarioDoc_def scenarioText_def)
  have d: "take 7 (drop 6 (charFormats scenarioDoc)) = replicate 7 emptyFormat"
    by (simp add: scenarioDoc_def numeral_eq_Suc)
  have e: "m_errorLogLevelFormat monospace \<noteq> emptyFormat"
    by (simp add: format_defs emptyFormat_def)
  have f: "selectedText scenarioDoc (Cursor 20 23) = [SQ] @ ''x'' @ [SQ]"
    by (simp add: selectedText_def scenarioDoc_def scenarioText_def)
  have g: "take 3 (drop 20 (charFormats scenarioDoc)) = replicate 3 m_stringFormat"
    by (simp add: scenarioDoc_def numeral_eq_Suc)
  from a b c d e f g show ?thesis by blast
qed

end
